theory Spec2Isabelle
  imports Main "HOL-Library.Word"
begin

unbundle bit_operations_syntax

section \<open>Memory model\<close>

text \<open>
  The library of \<^verbatim>\<open>search.c\<close> works on \<^verbatim>\<open>const char*\<close> pointers. A pointer is
  modelled by the bytes that can be read from it onwards, up to the end of the object it
  points into; \<open>None\<close> is the \<^verbatim>\<open>NULL\<close> pointer. A byte is a \<open>char\<close>
  (eight bits). Reading past the end of the object is the error \<open>OutOfBounds\<close>, so every
  array access of the source is a branch of the model. A returned pointer is given by
  its offset from the \<^verbatim>\<open>haystack\<close> argument; \<open>Inr None\<close> is a returned \<^verbatim>\<open>NULL\<close>.
  \<open>Uninitialised\<close> is the read of an array cell that was never written, \<open>BadPointer\<close>
  a pointer computed to lie before the first byte of its object.

  \<^verbatim>\<open>size_t\<close> has 64 bits and \<^verbatim>\<open>int\<close> 32 bits (the LP64 targets of the
  \<^verbatim>\<open>gcc\<close> command lines in the sources). Lengths are natural numbers below \<open>2 ^ 64\<close>;
  a subtraction of the source that can wrap around is written with \<open>size_sub\<close>.
\<close>

type_synonym byte = char

type_synonym cptr = "byte list option"

datatype error = OutOfBounds | Uninitialised | BadPointer

type_synonym found = "error + nat option"

definition rd :: "byte list \<Rightarrow> nat \<Rightarrow> error + byte" where
  "rd m i = (if i < length m then Inr (m ! i) else Inl OutOfBounds)"

text \<open>An array access whose index is an \<^verbatim>\<open>int\<close>.\<close>

definition rd_int :: "byte list \<Rightarrow> int \<Rightarrow> error + byte" where
  "rd_int m i = (if 0 \<le> i then rd m (nat i) else Inl OutOfBounds)"

definition size_sub :: "nat \<Rightarrow> nat \<Rightarrow> nat" where
  "size_sub a b = (a + 2 ^ 64 - b) mod 2 ^ 64"

lemma wrap_sub:
  fixes a b M :: nat
  assumes "b \<le> a" and "a < M"
  shows "(a + M - b) mod M = a - b"
proof -
  from assms(1) have "a + M - b = (a - b) + M" by arith
  then have "(a + M - b) mod M = (a - b) mod M" by (simp only: mod_add_self2)
  moreover from assms have "a - b < M" by arith
  ultimately show ?thesis by (simp only: mod_less)
qed

lemma size_sub_eq:
  assumes "b \<le> a" and "a < 2 ^ 64"
  shows "size_sub a b = a - b"
  unfolding size_sub_def using assms by (rule wrap_sub)

definition NUL :: byte where
  "NUL = CHR 0x00"

section \<open>Functions of the C library used by the sources\<close>

text \<open>
  \<^verbatim>\<open>memchr(s, c, n)\<close>: the first of the \<open>n\<close> bytes from offset \<open>p\<close> that equals \<open>c\<close>,
  read one after the other until the byte is found.
\<close>

function memchr :: "byte list \<Rightarrow> nat \<Rightarrow> byte \<Rightarrow> nat \<Rightarrow> found" where
  "memchr m p c n =
     (if n = 0 then Inr None
      else (case rd m p of
              Inl e \<Rightarrow> Inl e
            | Inr b \<Rightarrow> if b = c then Inr (Some p) else memchr m (p + 1) c (n - 1)))"
  by pat_completeness auto
termination
  by (relation "measure (\<lambda>(m, p, c, n). n)") auto

declare memchr.simps [simp del]

text \<open>
  \<^verbatim>\<open>memcmp(a, b, n) == 0\<close>: both arguments must point to \<open>n\<close> readable bytes.
\<close>

definition memcmp_eq :: "byte list \<Rightarrow> nat \<Rightarrow> byte list \<Rightarrow> nat \<Rightarrow> nat \<Rightarrow> error + bool" where
  "memcmp_eq a p b q n =
     (if p + n \<le> length a \<and> q + n \<le> length b
      then Inr (take n (drop p a) = take n (drop q b))
      else Inl OutOfBounds)"

text \<open>\<^verbatim>\<open>strlen(s)\<close>: the offset of the first NUL byte, counted from \<open>i\<close>.\<close>

function strlen_from :: "byte list \<Rightarrow> nat \<Rightarrow> error + nat" where
  "strlen_from m i =
     (case rd m i of
        Inl e \<Rightarrow> Inl e
      | Inr b \<Rightarrow> if b = NUL then Inr i else strlen_from m (i + 1))"
  by pat_completeness auto
termination
  by (relation "measure (\<lambda>(m, i). length m - i)") (auto simp: rd_def split: if_splits)

declare strlen_from.simps [simp del]

definition strlen :: "byte list \<Rightarrow> error + nat" where
  "strlen m = strlen_from m 0"

text \<open>
  \<^verbatim>\<open>strchr(s, c)\<close>: the first byte equal to \<open>c\<close> before the terminating NUL
  (the terminator itself when \<open>c\<close> is NUL).
\<close>

function strchr :: "byte list \<Rightarrow> nat \<Rightarrow> byte \<Rightarrow> found" where
  "strchr m p c =
     (case rd m p of
        Inl e \<Rightarrow> Inl e
      | Inr b \<Rightarrow> if b = c then Inr (Some p)
                else if b = NUL then Inr None
                else strchr m (p + 1) c)"
  by pat_completeness auto
termination
  by (relation "measure (\<lambda>(m, p, c). length m - p)") (auto simp: rd_def split: if_splits)

declare strchr.simps [simp del]

section \<open>Naive search\<close>

text \<open>
  \<^verbatim>\<open>searchSimpleString\<close>, inner loop:
  \<^verbatim>\<open>while (needle[i]) { if (haystack[i] != needle[i]) break; i++; }\<close>
\<close>

function simpleString_compare :: "byte list \<Rightarrow> nat \<Rightarrow> byte list \<Rightarrow> nat \<Rightarrow> error + nat" where
  "simpleString_compare hs p nd i =
     (case rd nd i of
        Inl e \<Rightarrow> Inl e
      | Inr c \<Rightarrow>
          if c \<noteq> NUL then
            (case rd hs (p + i) of
               Inl e \<Rightarrow> Inl e
             | Inr b \<Rightarrow> if b \<noteq> c then Inr i else simpleString_compare hs p nd (i + 1))
          else Inr i)"
  by pat_completeness auto
termination
  by (relation "measure (\<lambda>(hs, p, nd, i). length nd - i)") (auto simp: rd_def split: if_splits)

declare simpleString_compare.simps [simp del]

text \<open>The outer loop \<^verbatim>\<open>while (*haystack)\<close>; \<open>p\<close> is the offset of \<^verbatim>\<open>haystack\<close>.\<close>

function simpleString_loop :: "byte list \<Rightarrow> nat \<Rightarrow> byte list \<Rightarrow> found" where
  "simpleString_loop hs p nd =
     (case rd hs p of
        Inl e \<Rightarrow> Inl e
      | Inr b \<Rightarrow>
          if b \<noteq> NUL then
            (case simpleString_compare hs p nd 0 of
               Inl e \<Rightarrow> Inl e
             | Inr i \<Rightarrow>
                 (case rd nd i of
                    Inl e \<Rightarrow> Inl e
                  | Inr c \<Rightarrow> if c = NUL then Inr (Some p) else simpleString_loop hs (p + 1) nd))
          else Inr None)"
  by pat_completeness auto
termination
  by (relation "measure (\<lambda>(hs, p, nd). length hs - p)") (auto simp: rd_def split: if_splits)

declare simpleString_loop.simps [simp del]

definition searchSimpleString :: "cptr \<Rightarrow> cptr \<Rightarrow> found" where
  "searchSimpleString haystack needle =
     (case haystack of
        None \<Rightarrow> Inr None
      | Some hs \<Rightarrow>
          (case needle of
             None \<Rightarrow> Inr None
           | Some nd \<Rightarrow> simpleString_loop hs 0 nd))"

text \<open>
  \<^verbatim>\<open>searchSimple\<close>, inner loop:
  \<^verbatim>\<open>for (; i < needleLength; i++) if (haystack[i] != needle[i]) break;\<close>
\<close>

function simple_compare :: "byte list \<Rightarrow> nat \<Rightarrow> byte list \<Rightarrow> nat \<Rightarrow> nat \<Rightarrow> error + nat" where
  "simple_compare hs p nd needleLength i =
     (if i < needleLength then
        (case rd hs (p + i) of
           Inl e \<Rightarrow> Inl e
         | Inr b \<Rightarrow>
             (case rd nd i of
                Inl e \<Rightarrow> Inl e
              | Inr c \<Rightarrow> if b \<noteq> c then Inr i else simple_compare hs p nd needleLength (i + 1)))
      else Inr i)"
  by pat_completeness auto
termination
  by (relation "measure (\<lambda>(hs, p, nd, needleLength, i). needleLength - i)") auto

declare simple_compare.simps [simp del]

lemma simple_compare_stops:
  "simple_compare hs p nd needleLength i = Inr k \<Longrightarrow> k \<noteq> needleLength \<Longrightarrow> i \<le> needleLength
    \<Longrightarrow> p + k < length hs \<and> k < needleLength"
proof (induction hs p nd needleLength i rule: simple_compare.induct)
  case (1 hs p nd needleLength i)
  show ?case
  proof (cases "i < needleLength")
    case True
    with "1.prems" "1.IH" show ?thesis
      by (subst (asm) simple_compare.simps)
        (auto simp: rd_def split: if_splits sum.splits)
  next
    case False
    with "1.prems" show ?thesis
      by (subst (asm) simple_compare.simps) auto
  qed
qed

text \<open>
  The outer loop \<^verbatim>\<open>while (haystack != haystackEnd)\<close>; \<open>p\<close> is the offset of
  \<^verbatim>\<open>haystack\<close>.
\<close>

function simple_loop :: "byte list \<Rightarrow> nat \<Rightarrow> nat \<Rightarrow> byte list \<Rightarrow> nat \<Rightarrow> found" where
  "simple_loop hs p haystackEnd nd needleLength =
     (if p \<noteq> haystackEnd then
        (case simple_compare hs p nd needleLength 0 of
           Inl e \<Rightarrow> Inl e
         | Inr i \<Rightarrow>
             if i = needleLength then Inr (Some p)
             else simple_loop hs (p + 1) haystackEnd nd needleLength)
      else Inr None)"
  by pat_completeness auto
termination
proof (relation "measure (\<lambda>(hs, p, haystackEnd, nd, needleLength). length hs - p)")
  show "wf (measure (\<lambda>(hs, p, haystackEnd, nd, needleLength). length hs - p))"
    by simp
next
  fix hs :: "byte list" and p haystackEnd :: nat and nd :: "byte list" and needleLength i :: nat
  assume "simple_compare hs p nd needleLength 0 = Inr i" and "i \<noteq> needleLength"
  then have "p + i < length hs"
    using simple_compare_stops [of hs p nd needleLength 0 i] by simp
  then show "((hs, p + 1, haystackEnd, nd, needleLength), (hs, p, haystackEnd, nd, needleLength))
      \<in> measure (\<lambda>(hs, p, haystackEnd, nd, needleLength). length hs - p)"
    by simp
qed

declare simple_loop.simps [simp del]

definition searchSimple :: "cptr \<Rightarrow> nat \<Rightarrow> cptr \<Rightarrow> nat \<Rightarrow> found" where
  "searchSimple haystack haystackLength needle needleLength =
     (case haystack of
        None \<Rightarrow> Inr None
      | Some hs \<Rightarrow>
          (case needle of
             None \<Rightarrow> Inr None
           | Some nd \<Rightarrow>
               if haystackLength < needleLength then Inr None
               else
                 let haystackLength' = size_sub haystackLength (size_sub needleLength 1);
                     haystackEnd = 0 + haystackLength'
                 in simple_loop hs 0 haystackEnd nd needleLength))"

section \<open>Rabin-Karp search\<close>

text \<open>
  The value a \<^verbatim>\<open>char\<close> contributes to the \<^verbatim>\<open>unsigned int\<close> hash: \<^verbatim>\<open>char\<close> is
  signed on the targets of the sources' \<^verbatim>\<open>gcc\<close> command lines, so a byte above 127 is
  sign-extended before it is reduced modulo \<open>2 ^ 32\<close>.
\<close>

definition char_val :: "byte \<Rightarrow> 32 word" where
  "char_val c =
     (if (of_char c :: nat) < 128 then word_of_nat (of_char c)
      else word_of_nat (of_char c) - 256)"

text \<open>
  \<^verbatim>\<open>searchRabinKarp\<close>, the hash loop. \<open>Inr None\<close> is its \<^verbatim>\<open>return NULL\<close>
  ("not enough haystack left").
\<close>

function rabinKarp_hash ::
  "byte list \<Rightarrow> nat \<Rightarrow> byte list \<Rightarrow> nat \<Rightarrow> nat \<Rightarrow> 32 word \<Rightarrow> 32 word
    \<Rightarrow> error + (32 word \<times> 32 word) option" where
  "rabinKarp_hash hs p nd needleLength i hashNeedle hashHaystack =
     (if i < needleLength then
        (case rd hs (p + i) of
           Inl e \<Rightarrow> Inl e
         | Inr b \<Rightarrow>
             if b = NUL then Inr None
             else
               (case rd nd i of
                  Inl e \<Rightarrow> Inl e
                | Inr c \<Rightarrow>
                    rabinKarp_hash hs p nd needleLength (i + 1)
                      (hashNeedle + char_val c) (hashHaystack + char_val b)))
      else Inr (Some (hashNeedle, hashHaystack)))"
  by pat_completeness auto
termination
  by (relation "measure (\<lambda>(hs, p, nd, needleLength, i, hn, hh). needleLength - i)") auto

declare rabinKarp_hash.simps [simp del]

text \<open>The rolling loop \<^verbatim>\<open>while (haystack != haystackEnd)\<close>.\<close>

function rabinKarp_loop ::
  "byte list \<Rightarrow> nat \<Rightarrow> nat \<Rightarrow> byte list \<Rightarrow> nat \<Rightarrow> 32 word \<Rightarrow> 32 word \<Rightarrow> found" where
  "rabinKarp_loop hs p haystackEnd nd needleLength hashNeedle hashHaystack =
     (if p \<noteq> haystackEnd then
        (case (if hashHaystack = hashNeedle then memcmp_eq hs p nd 0 needleLength
               else Inr False) of
           Inl e \<Rightarrow> Inl e
         | Inr same \<Rightarrow>
             if same then Inr (Some p)
             else
               (case rd hs (p + needleLength) of
                  Inl e \<Rightarrow> Inl e
                | Inr incoming \<Rightarrow>
                    (case rd hs p of
                       Inl e \<Rightarrow> Inl e
                     | Inr outgoing \<Rightarrow>
                         rabinKarp_loop hs (p + 1) haystackEnd nd needleLength hashNeedle
                           (hashHaystack + char_val incoming - char_val outgoing))))
      else Inr None)"
  by pat_completeness auto
termination
  by (relation "measure (\<lambda>(hs, p, haystackEnd, nd, needleLength, hn, hh). length hs - p)")
    (auto simp: rd_def split: if_splits)

declare rabinKarp_loop.simps [simp del]

definition searchRabinKarp :: "cptr \<Rightarrow> nat \<Rightarrow> cptr \<Rightarrow> nat \<Rightarrow> found" where
  "searchRabinKarp haystack haystackLength needle needleLength =
     (case haystack of
        None \<Rightarrow> Inr None
      | Some hs \<Rightarrow>
          (case needle of
             None \<Rightarrow> Inr None
           | Some nd \<Rightarrow>
               if haystackLength < needleLength then Inr None
               else if needleLength = 0 then Inr (Some 0)
               else
                 let haystackEnd = 0 + haystackLength - needleLength + 1 in
                 (case rd nd 0 of
                    Inl e \<Rightarrow> Inl e
                  | Inr first \<Rightarrow>
                      (case memchr hs 0 first haystackLength of
                         Inl e \<Rightarrow> Inl e
                       | Inr None \<Rightarrow> Inr None
                       | Inr (Some p) \<Rightarrow>
                           (case rabinKarp_hash hs p nd needleLength 0 0 0 of
                              Inl e \<Rightarrow> Inl e
                            | Inr None \<Rightarrow> Inr None
                            | Inr (Some (hashNeedle, hashHaystack)) \<Rightarrow>
                                rabinKarp_loop hs p haystackEnd nd needleLength
                                  hashNeedle hashHaystack)))))"

text \<open>
  \<^verbatim>\<open>searchRabinKarpString\<close>, the hash loop
  \<^verbatim>\<open>while (*scanNeedle && *scanHaystack)\<close>; it returns both scan positions and hashes.
\<close>

function rabinKarpString_hash ::
  "byte list \<Rightarrow> nat \<Rightarrow> byte list \<Rightarrow> nat \<Rightarrow> 32 word \<Rightarrow> 32 word
    \<Rightarrow> error + (nat \<times> nat \<times> 32 word \<times> 32 word)" where
  "rabinKarpString_hash hs scanHaystack nd scanNeedle hashNeedle hashHaystack =
     (case rd nd scanNeedle of
        Inl e \<Rightarrow> Inl e
      | Inr c \<Rightarrow>
          if c = NUL then Inr (scanHaystack, scanNeedle, hashNeedle, hashHaystack)
          else
            (case rd hs scanHaystack of
               Inl e \<Rightarrow> Inl e
             | Inr b \<Rightarrow>
                 if b = NUL then Inr (scanHaystack, scanNeedle, hashNeedle, hashHaystack)
                 else
                   rabinKarpString_hash hs (scanHaystack + 1) nd (scanNeedle + 1)
                     (hashNeedle + char_val c) (hashHaystack + char_val b)))"
  by pat_completeness auto
termination
  by (relation "measure (\<lambda>(hs, sh, nd, sn, hn, hh). length nd - sn)")
    (auto simp: rd_def split: if_splits)

declare rabinKarpString_hash.simps [simp del]

text \<open>The rolling loop \<^verbatim>\<open>for (;;)\<close> of the string variant.\<close>

function rabinKarpString_loop ::
  "byte list \<Rightarrow> nat \<Rightarrow> nat \<Rightarrow> byte list \<Rightarrow> nat \<Rightarrow> 32 word \<Rightarrow> 32 word \<Rightarrow> found" where
  "rabinKarpString_loop hs p scanHaystack nd needleLength hashNeedle hashHaystack =
     (case (if hashHaystack = hashNeedle then memcmp_eq hs p nd 0 needleLength
            else Inr False) of
        Inl e \<Rightarrow> Inl e
      | Inr same \<Rightarrow>
          if same then Inr (Some p)
          else
            (case rd hs scanHaystack of
               Inl e \<Rightarrow> Inl e
             | Inr b \<Rightarrow>
                 if b = NUL then Inr None
                 else
                   (case rd hs p of
                      Inl e \<Rightarrow> Inl e
                    | Inr outgoing \<Rightarrow>
                        rabinKarpString_loop hs (p + 1) (scanHaystack + 1) nd needleLength
                          hashNeedle (hashHaystack - char_val outgoing + char_val b))))"
  by pat_completeness auto
termination
  by (relation "measure (\<lambda>(hs, p, sh, nd, needleLength, hn, hh). length hs - sh)")
    (auto simp: rd_def split: if_splits)

declare rabinKarpString_loop.simps [simp del]

definition searchRabinKarpString :: "cptr \<Rightarrow> cptr \<Rightarrow> found" where
  "searchRabinKarpString haystack needle =
     (case haystack of
        None \<Rightarrow> Inr None
      | Some hs \<Rightarrow>
          (case needle of
             None \<Rightarrow> Inr None
           | Some nd \<Rightarrow>
               (case rd nd 0 of
                  Inl e \<Rightarrow> Inl e
                | Inr first \<Rightarrow>
                    if first = NUL then Inr (Some 0)
                    else
                      (case strchr hs 0 first of
                         Inl e \<Rightarrow> Inl e
                       | Inr None \<Rightarrow> Inr None
                       | Inr (Some p) \<Rightarrow>
                           (case rd hs p of
                              Inl e \<Rightarrow> Inl e
                            | Inr b \<Rightarrow>
                                (case rabinKarpString_hash hs (p + 1) nd (0 + 1)
                                        (char_val first) (char_val b) of
                                   Inl e \<Rightarrow> Inl e
                                 | Inr (scanHaystack, scanNeedle, hashNeedle, hashHaystack) \<Rightarrow>
                                     (case rd nd scanNeedle of
                                        Inl e \<Rightarrow> Inl e
                                      | Inr c \<Rightarrow>
                                          if c \<noteq> NUL then Inr None
                                          else
                                            let needleLength = scanNeedle - 0 in
                                            rabinKarpString_loop hs p scanHaystack nd
                                              needleLength hashNeedle hashHaystack)))))))"

section \<open>Knuth-Morris-Pratt search\<close>

text \<open>
  The skip table \<^verbatim>\<open>int* skip\<close>: a list with one cell for each \<^verbatim>\<open>int\<close> of the array it
  points to (\<open>None\<close>: not written yet). It is either the local array
  \<^verbatim>\<open>int localMemory[MaxLocalMemory]\<close> or the block \<^verbatim>\<open>malloc(needleLength * sizeof(int))\<close>.
  The entries are \<^verbatim>\<open>int\<close> values, modelled as unbounded integers: they never exceed the
  needle's length.
\<close>

type_synonym table = "int option list"

definition MaxLocalMemory :: nat where
  "MaxLocalMemory = 256"

definition tbl_read :: "table \<Rightarrow> int \<Rightarrow> error + int" where
  "tbl_read t i =
     (if 0 \<le> i \<and> nat i < length t
      then (case t ! nat i of None \<Rightarrow> Inl Uninitialised | Some v \<Rightarrow> Inr v)
      else Inl OutOfBounds)"

definition tbl_write :: "table \<Rightarrow> int \<Rightarrow> int \<Rightarrow> error + table" where
  "tbl_write t i v =
     (if 0 \<le> i \<and> nat i < length t then Inr (t[nat i := Some v]) else Inl OutOfBounds)"

text \<open>
  The choice between stack and heap. \<open>malloc_ok\<close> tells whether \<^verbatim>\<open>malloc\<close> grants the
  request; \<open>None\<close> is the \<^verbatim>\<open>return NULL\<close> after a failed allocation.
\<close>

definition kmp_alloc :: "bool \<Rightarrow> nat \<Rightarrow> table option" where
  "kmp_alloc malloc_ok needleLength =
     (if needleLength > MaxLocalMemory then
        (if malloc_ok then Some (replicate ((needleLength * 4) mod 2 ^ 64 div 4) None)
         else None)
      else Some (replicate MaxLocalMemory None))"

text \<open>
  The inner loop of the preprocessing:
  \<^verbatim>\<open>while (skip[i + 1] > 0 && needle[i] != needle[skip[i + 1] - 1])
    skip[i + 1] = skip[skip[i + 1] - 1] + 1;\<close>
\<close>

partial_function (option) kmp_fallback ::
  "byte list \<Rightarrow> table \<Rightarrow> int \<Rightarrow> (error + table) option" where
  "kmp_fallback nd skip i =
     (case tbl_read skip (i + 1) of
        Inl e \<Rightarrow> Some (Inl e)
      | Inr v \<Rightarrow>
          if v > 0 then
            (case rd_int nd i of
               Inl e \<Rightarrow> Some (Inl e)
             | Inr a \<Rightarrow>
                 (case rd_int nd (v - 1) of
                    Inl e \<Rightarrow> Some (Inl e)
                  | Inr b \<Rightarrow>
                      if a \<noteq> b then
                        (case tbl_read skip (v - 1) of
                           Inl e \<Rightarrow> Some (Inl e)
                         | Inr w \<Rightarrow>
                             (case tbl_write skip (i + 1) (w + 1) of
                                Inl e \<Rightarrow> Some (Inl e)
                              | Inr skip' \<Rightarrow> kmp_fallback nd skip' i))
                      else Some (Inr skip)))
          else Some (Inr skip))"

text \<open>
  One round of the preprocessing loop: \<^verbatim>\<open>skip[i + 1] = skip[i] + 1;\<close> followed by the
  inner loop.
\<close>

definition kmp_round :: "byte list \<Rightarrow> table \<Rightarrow> int \<Rightarrow> (error + table) option" where
  "kmp_round nd skip i =
     (case tbl_read skip i of
        Inl e \<Rightarrow> Some (Inl e)
      | Inr v \<Rightarrow>
          (case tbl_write skip (i + 1) (v + 1) of
             Inl e \<Rightarrow> Some (Inl e)
           | Inr skip' \<Rightarrow> kmp_fallback nd skip' i))"

text \<open>\<^verbatim>\<open>for (i = 0; i < needleLength; i++)\<close> of \<^verbatim>\<open>searchKnuthMorrisPratt\<close>.\<close>

function kmp_prepare :: "byte list \<Rightarrow> nat \<Rightarrow> nat \<Rightarrow> table \<Rightarrow> (error + table) option" where
  "kmp_prepare nd needleLength i skip =
     (if i < needleLength then
        (case kmp_round nd skip (int i) of
           None \<Rightarrow> None
         | Some (Inl e) \<Rightarrow> Some (Inl e)
         | Some (Inr skip') \<Rightarrow> kmp_prepare nd needleLength (i + 1) skip')
      else Some (Inr skip))"
  by pat_completeness auto
termination
  by (relation "measure (\<lambda>(nd, needleLength, i, skip). needleLength - i)") auto

declare kmp_prepare.simps [simp del]

text \<open>
  \<^verbatim>\<open>for (i = 0; needle[i]; i++)\<close> of \<^verbatim>\<open>searchKnuthMorrisPrattString\<close>, with \<^verbatim>\<open>int i\<close>.
\<close>

function kmpString_prepare :: "byte list \<Rightarrow> nat \<Rightarrow> table \<Rightarrow> (error + table) option" where
  "kmpString_prepare nd i skip =
     (case rd nd i of
        Inl e \<Rightarrow> Some (Inl e)
      | Inr c \<Rightarrow>
          if c \<noteq> NUL then
            (case kmp_round nd skip (int i) of
               None \<Rightarrow> None
             | Some (Inl e) \<Rightarrow> Some (Inl e)
             | Some (Inr skip') \<Rightarrow> kmpString_prepare nd (i + 1) skip')
          else Some (Inr skip))"
  by pat_completeness auto
termination
  by (relation "measure (\<lambda>(nd, i, skip). length nd - i)") (auto simp: rd_def split: if_splits)

declare kmpString_prepare.simps [simp del]

text \<open>
  The inner loop of the scan:
  \<^verbatim>\<open>while (shift >= 0 && *haystack != needle[shift]) shift = skip[shift];\<close>
\<close>

partial_function (option) kmp_shift ::
  "byte list \<Rightarrow> nat \<Rightarrow> byte list \<Rightarrow> table \<Rightarrow> int \<Rightarrow> (error + int) option" where
  "kmp_shift hs p nd skip shift =
     (if shift \<ge> 0 then
        (case rd hs p of
           Inl e \<Rightarrow> Some (Inl e)
         | Inr b \<Rightarrow>
             (case rd_int nd shift of
                Inl e \<Rightarrow> Some (Inl e)
              | Inr c \<Rightarrow>
                  if b \<noteq> c then
                    (case tbl_read skip shift of
                       Inl e \<Rightarrow> Some (Inl e)
                     | Inr s \<Rightarrow> kmp_shift hs p nd skip s)
                  else Some (Inr shift)))
      else Some (Inr shift))"

text \<open>
  \<^verbatim>\<open>result = haystack - shift\<close>, for the pointer at offset \<open>p\<close>.
\<close>

definition kmp_result :: "nat \<Rightarrow> int \<Rightarrow> found" where
  "kmp_result p shift =
     (if int p - shift < 0 then Inl BadPointer else Inr (Some (nat (int p - shift))))"

text \<open>
  The scan \<^verbatim>\<open>while (haystack != haystackEnd)\<close> of \<^verbatim>\<open>searchKnuthMorrisPratt\<close>;
  \<^verbatim>\<open>(size_t)shift\<close> is \<open>shift mod 2 ^ 64\<close>.
\<close>

partial_function (option) kmp_loop ::
  "byte list \<Rightarrow> nat \<Rightarrow> nat \<Rightarrow> byte list \<Rightarrow> nat \<Rightarrow> table \<Rightarrow> int \<Rightarrow> found option" where
  "kmp_loop hs p haystackEnd nd needleLength skip shift =
     (if p \<noteq> haystackEnd then
        (case kmp_shift hs p nd skip shift of
           None \<Rightarrow> None
         | Some (Inl e) \<Rightarrow> Some (Inl e)
         | Some (Inr shift') \<Rightarrow>
             if (shift' + 1) mod 2 ^ 64 = int needleLength
             then Some (kmp_result (p + 1) (shift' + 1))
             else kmp_loop hs (p + 1) haystackEnd nd needleLength skip (shift' + 1))
      else Some (Inr None))"

definition searchKnuthMorrisPratt :: "bool \<Rightarrow> cptr \<Rightarrow> nat \<Rightarrow> cptr \<Rightarrow> nat \<Rightarrow> found option" where
  "searchKnuthMorrisPratt malloc_ok haystack haystackLength needle needleLength =
     (case haystack of
        None \<Rightarrow> Some (Inr None)
      | Some hs \<Rightarrow>
          (case needle of
             None \<Rightarrow> Some (Inr None)
           | Some nd \<Rightarrow>
               if haystackLength < needleLength then Some (Inr None)
               else if needleLength = 0 then Some (Inr (Some 0))
               else
                 (case kmp_alloc malloc_ok needleLength of
                    None \<Rightarrow> Some (Inr None)
                  | Some skip0 \<Rightarrow>
                      (case tbl_write skip0 0 (- 1) of
                         Inl e \<Rightarrow> Some (Inl e)
                       | Inr skip1 \<Rightarrow>
                           (case kmp_prepare nd needleLength 0 skip1 of
                              None \<Rightarrow> None
                            | Some (Inl e) \<Rightarrow> Some (Inl e)
                            | Some (Inr skip) \<Rightarrow>
                                kmp_loop hs 0 (0 + haystackLength) nd needleLength skip 0)))))"

text \<open>
  The scan \<^verbatim>\<open>while (*haystack)\<close> of \<^verbatim>\<open>searchKnuthMorrisPrattString\<close>, which tests
  \<^verbatim>\<open>!needle[shift]\<close> for the hit.
\<close>

partial_function (option) kmpString_loop ::
  "byte list \<Rightarrow> nat \<Rightarrow> byte list \<Rightarrow> table \<Rightarrow> int \<Rightarrow> found option" where
  "kmpString_loop hs p nd skip shift =
     (case rd hs p of
        Inl e \<Rightarrow> Some (Inl e)
      | Inr b \<Rightarrow>
          if b \<noteq> NUL then
            (case kmp_shift hs p nd skip shift of
               None \<Rightarrow> None
             | Some (Inl e) \<Rightarrow> Some (Inl e)
             | Some (Inr shift') \<Rightarrow>
                 (case rd_int nd (shift' + 1) of
                    Inl e \<Rightarrow> Some (Inl e)
                  | Inr c \<Rightarrow>
                      if c = NUL then Some (kmp_result (p + 1) (shift' + 1))
                      else kmpString_loop hs (p + 1) nd skip (shift' + 1)))
          else Some (Inr None))"

definition searchKnuthMorrisPrattString :: "bool \<Rightarrow> cptr \<Rightarrow> cptr \<Rightarrow> found option" where
  "searchKnuthMorrisPrattString malloc_ok haystack needle =
     (case haystack of
        None \<Rightarrow> Some (Inr None)
      | Some hs \<Rightarrow>
          (case needle of
             None \<Rightarrow> Some (Inr None)
           | Some nd \<Rightarrow>
               (case strlen nd of
                  Inl e \<Rightarrow> Some (Inl e)
                | Inr needleLength \<Rightarrow>
                    if needleLength = 0 then Some (Inr (Some 0))
                    else
                      (case kmp_alloc malloc_ok needleLength of
                         None \<Rightarrow> Some (Inr None)
                       | Some skip0 \<Rightarrow>
                           (case tbl_write skip0 0 (- 1) of
                              Inl e \<Rightarrow> Some (Inl e)
                            | Inr skip1 \<Rightarrow>
                                (case kmpString_prepare nd 0 skip1 of
                                   None \<Rightarrow> None
                                 | Some (Inl e) \<Rightarrow> Some (Inl e)
                                 | Some (Inr skip) \<Rightarrow> kmpString_loop hs 0 nd skip 0))))))"

section \<open>Boyer-Moore-Horspool search\<close>

definition NumChar :: nat where
  "NumChar = 2 ^ 8"

text \<open>
  The second table loop:
  \<^verbatim>\<open>for (pos = 0; pos < lastPos; pos++) skip[(unsigned char)needle[pos]] = lastPos - pos;\<close>
  The table \<^verbatim>\<open>size_t skip[NumChar]\<close> is a list of \<open>NumChar\<close> numbers, indexed by the
  value of a byte.
\<close>

function bmh_prepare :: "byte list \<Rightarrow> nat \<Rightarrow> nat \<Rightarrow> nat list \<Rightarrow> error + nat list" where
  "bmh_prepare nd lastPos pos skip =
     (if pos < lastPos then
        (case rd nd pos of
           Inl e \<Rightarrow> Inl e
         | Inr c \<Rightarrow> bmh_prepare nd lastPos (pos + 1) (skip[of_char c := lastPos - pos]))
      else Inr skip)"
  by pat_completeness auto
termination
  by (relation "measure (\<lambda>(nd, lastPos, pos, skip). lastPos - pos)") auto

declare bmh_prepare.simps [simp del]

text \<open>
  The comparison of one window, from right to left:
  \<^verbatim>\<open>for (i = lastPos; haystack[i] == needle[i]; i--) if (i == 0) return haystack;\<close>
  \<open>Inr True\<close> is the \<^verbatim>\<open>return haystack\<close>, \<open>Inr False\<close> the end of the loop at a mismatch.
\<close>

function bmh_compare :: "byte list \<Rightarrow> nat \<Rightarrow> byte list \<Rightarrow> nat \<Rightarrow> error + bool" where
  "bmh_compare hs p nd i =
     (case rd hs (p + i) of
        Inl e \<Rightarrow> Inl e
      | Inr b \<Rightarrow>
          (case rd nd i of
             Inl e \<Rightarrow> Inl e
           | Inr c \<Rightarrow>
               if b = c then (if i = 0 then Inr True else bmh_compare hs p nd (i - 1))
               else Inr False))"
  by pat_completeness auto
termination
  by (relation "measure (\<lambda>(hs, p, nd, i). i)") auto

declare bmh_compare.simps [simp del]

text \<open>
  The walk through the haystack, \<^verbatim>\<open>while (haystackLength >= needleLength)\<close>. The table is
  an argument, and nothing in the loop itself keeps an entry from being 0: the loop is a
  partial function, and that it returns is a theorem about the table built before it.
\<close>

partial_function (option) bmh_loop ::
  "byte list \<Rightarrow> nat \<Rightarrow> nat \<Rightarrow> byte list \<Rightarrow> nat \<Rightarrow> nat \<Rightarrow> nat list \<Rightarrow> found option" where
  "bmh_loop hs p haystackLength nd needleLength lastPos skip =
     (if haystackLength \<ge> needleLength then
        (case bmh_compare hs p nd lastPos of
           Inl e \<Rightarrow> Some (Inl e)
         | Inr hit \<Rightarrow>
             if hit then Some (Inr (Some p))
             else
               (case rd hs (p + lastPos) of
                  Inl e \<Rightarrow> Some (Inl e)
                | Inr marker \<Rightarrow>
                    bmh_loop hs (p + skip ! of_char marker)
                      (size_sub haystackLength (skip ! of_char marker))
                      nd needleLength lastPos skip))
      else Some (Inr None))"

text \<open>
  The table as \<^verbatim>\<open>searchBoyerMooreHorspool\<close> builds it: every entry \<^verbatim>\<open>needleLength\<close> first,
  then the entries of the needle's bytes but the last.
\<close>

definition bmh_table :: "byte list \<Rightarrow> nat \<Rightarrow> error + nat list" where
  "bmh_table nd needleLength =
     bmh_prepare nd (size_sub needleLength 1) 0 (replicate NumChar needleLength)"

definition searchBoyerMooreHorspool :: "cptr \<Rightarrow> nat \<Rightarrow> cptr \<Rightarrow> nat \<Rightarrow> found option" where
  "searchBoyerMooreHorspool haystack haystackLength needle needleLength =
     (case haystack of
        None \<Rightarrow> Some (Inr None)
      | Some hs \<Rightarrow>
          (case needle of
             None \<Rightarrow> Some (Inr None)
           | Some nd \<Rightarrow>
               if haystackLength < needleLength then Some (Inr None)
               else if needleLength = 0 then Some (Inr (Some 0))
               else
                 (case bmh_table nd needleLength of
                    Inl e \<Rightarrow> Some (Inl e)
                  | Inr skip \<Rightarrow>
                      bmh_loop hs 0 haystackLength nd needleLength
                        (size_sub needleLength 1) skip)))"

definition searchBoyerMooreHorspoolString :: "cptr \<Rightarrow> cptr \<Rightarrow> found option" where
  "searchBoyerMooreHorspoolString haystack needle =
     (case haystack of
        None \<Rightarrow> Some (Inr None)
      | Some hs \<Rightarrow>
          (case needle of
             None \<Rightarrow> Some (Inr None)
           | Some nd \<Rightarrow>
               (case strlen hs of
                  Inl e \<Rightarrow> Some (Inl e)
                | Inr haystackLength \<Rightarrow>
                    (case strlen nd of
                       Inl e \<Rightarrow> Some (Inl e)
                     | Inr needleLength \<Rightarrow>
                         searchBoyerMooreHorspool haystack haystackLength needle needleLength))))"

section \<open>Native search\<close>

lemma memchr_Some:
  "memchr m p c n = Inr (Some q) \<Longrightarrow>
     p \<le> q \<and> q < p + n \<and> q < length m \<and> m ! q = c \<and> (\<forall>k. p \<le> k \<and> k < q \<longrightarrow> m ! k \<noteq> c)"
proof (induction m p c n rule: memchr.induct)
  case (1 m p c n)
  show ?case
  proof (cases "n = 0")
    case True
    with "1.prems" show ?thesis by (subst (asm) memchr.simps) simp
  next
    case False
    with "1.prems" have inb: "p < length m"
      by (subst (asm) memchr.simps) (auto simp: rd_def split: if_splits)
    then have rd: "rd m p = Inr (m ! p)" by (simp add: rd_def)
    show ?thesis
    proof (cases "m ! p = c")
      case True
      with False rd "1.prems" have "q = p" by (subst (asm) memchr.simps) simp
      with True inb False show ?thesis by auto
    next
      case ne: False
      with False rd "1.prems" have "memchr m (p + 1) c (n - 1) = Inr (Some q)"
        by (subst (asm) memchr.simps) simp
      from "1.IH" [OF False rd ne this]
      have IH: "p + 1 \<le> q" "q < p + 1 + (n - 1)" "q < length m" "m ! q = c"
        "\<forall>k. p + 1 \<le> k \<and> k < q \<longrightarrow> m ! k \<noteq> c"
        by simp_all
      have "m ! k \<noteq> c" if "p \<le> k" "k < q" for k
      proof (cases "k = p")
        case True
        with ne show ?thesis by simp
      next
        case False
        with that have "p + 1 \<le> k" by simp
        with IH(5) that show ?thesis by blast
      qed
      with IH False show ?thesis by simp
    qed
  qed
qed

lemma memchr_None:
  "memchr m p c n = Inr None \<Longrightarrow> (\<forall>k. p \<le> k \<and> k < p + n \<longrightarrow> m ! k \<noteq> c)"
proof (induction m p c n rule: memchr.induct)
  case (1 m p c n)
  show ?case
  proof (cases "n = 0")
    case True
    then show ?thesis by auto
  next
    case False
    with "1.prems" have inb: "p < length m"
      by (subst (asm) memchr.simps) (auto simp: rd_def split: if_splits)
    then have rd: "rd m p = Inr (m ! p)" by (simp add: rd_def)
    from False rd "1.prems" have ne: "m ! p \<noteq> c"
      by (subst (asm) memchr.simps) (auto split: if_splits)
    with False rd "1.prems" have "memchr m (p + 1) c (n - 1) = Inr None"
      by (subst (asm) memchr.simps) simp
    from "1.IH" [OF False rd ne this]
    have IH: "\<forall>k. p + 1 \<le> k \<and> k < p + 1 + (n - 1) \<longrightarrow> m ! k \<noteq> c" .
    have "m ! k \<noteq> c" if "p \<le> k" "k < p + n" for k
    proof (cases "k = p")
      case True
      with ne show ?thesis by simp
    next
      case False
      with that have "p + 1 \<le> k" "k < p + 1 + (n - 1)" by simp_all
      with IH show ?thesis by blast
    qed
    then show ?thesis by blast
  qed
qed

lemma memchr_in_bounds:
  "p + n \<le> length m \<Longrightarrow> \<exists>r. memchr m p c n = Inr r"
proof (induction m p c n rule: memchr.induct)
  case (1 m p c n)
  show ?case
  proof (cases "n = 0")
    case True
    then show ?thesis by (subst memchr.simps) simp
  next
    case False
    with "1.prems" have rd: "rd m p = Inr (m ! p)" by (simp add: rd_def)
    show ?thesis
    proof (cases "m ! p = c")
      case True
      with False rd show ?thesis by (subst memchr.simps) simp
    next
      case ne: False
      from "1.prems" False have "p + 1 + (n - 1) \<le> length m" by simp
      from "1.IH" [OF False rd ne this] False rd ne show ?thesis
        by (subst memchr.simps) simp
    qed
  qed
qed

text \<open>
  The loop \<^verbatim>\<open>while ((haystack = memchr(haystack, *needle, haystackLength)) != NULL)\<close>
  of \<^verbatim>\<open>searchNative\<close>; \<open>p\<close> is the offset of \<^verbatim>\<open>haystack\<close> before the call of
  \<^verbatim>\<open>memchr\<close>. \<^verbatim>\<open>haystackEnd - haystack\<close> is a difference of pointers, converted to
  \<^verbatim>\<open>size_t\<close>.
\<close>

function native_loop ::
  "byte list \<Rightarrow> nat \<Rightarrow> nat \<Rightarrow> nat \<Rightarrow> byte list \<Rightarrow> nat \<Rightarrow> found" where
  "native_loop hs p haystackLength haystackEnd nd needleLength =
     (case rd nd 0 of
        Inl e \<Rightarrow> Inl e
      | Inr first \<Rightarrow>
          (case memchr hs p first haystackLength of
             Inl e \<Rightarrow> Inl e
           | Inr None \<Rightarrow> Inr None
           | Inr (Some q) \<Rightarrow>
               (case rd hs (q + size_sub needleLength 1) of
                  Inl e \<Rightarrow> Inl e
                | Inr b \<Rightarrow>
                    (case rd nd (size_sub needleLength 1) of
                       Inl e \<Rightarrow> Inl e
                     | Inr c \<Rightarrow>
                         (case (if b = c then
                                  (if needleLength = 2 then Inr True
                                   else memcmp_eq hs (q + 1) nd (0 + 1) (size_sub needleLength 2))
                                else Inr False) of
                            Inl e \<Rightarrow> Inl e
                          | Inr hit \<Rightarrow>
                              if hit then Inr (Some q)
                              else
                                let haystackLength' = nat ((int haystackEnd - int q) mod 2 ^ 64)
                                in if haystackLength' = 0 then Inr None
                                   else native_loop hs (q + 1) (size_sub haystackLength' 1)
                                          haystackEnd nd needleLength)))))"
  by pat_completeness auto
termination
  by (relation "measure (\<lambda>(hs, p, haystackLength, haystackEnd, nd, needleLength). length hs - p)")
    (auto dest!: memchr_Some)

declare native_loop.simps [simp del]

definition searchNative :: "cptr \<Rightarrow> nat \<Rightarrow> cptr \<Rightarrow> nat \<Rightarrow> found" where
  "searchNative haystack haystackLength needle needleLength =
     (case haystack of
        None \<Rightarrow> Inr None
      | Some hs \<Rightarrow>
          (case needle of
             None \<Rightarrow> Inr None
           | Some nd \<Rightarrow>
               if haystackLength < needleLength then Inr None
               else if needleLength = 0 then Inr (Some 0)
               else if needleLength = 1 then
                 (case rd nd 0 of
                    Inl e \<Rightarrow> Inl e
                  | Inr first \<Rightarrow> memchr hs 0 first haystackLength)
               else
                 let haystackLength' = size_sub haystackLength (size_sub needleLength 1);
                     haystackEnd = 0 + haystackLength'
                 in native_loop hs 0 haystackLength' haystackEnd nd needleLength))"

section \<open>Bitap search\<close>

text \<open>
  \<^verbatim>\<open>MaxBitWidth = 8 * sizeof(int) - 1\<close> and \<^verbatim>\<open>AlphabetSize\<close>. The masks and the state are
  \<^verbatim>\<open>unsigned int\<close>, that is 32-bit words; \<^verbatim>\<open>1 << i\<close> is the word with bit \<open>i\<close> set.
\<close>

definition MaxBitWidth :: nat where
  "MaxBitWidth = 8 * 4 - 1"

definition AlphabetSize :: nat where
  "AlphabetSize = 256"

text \<open>
  \<^verbatim>\<open>for (i = 0; i < needleLength; i++) masks[(unsigned char)needle[i]] &= ~(1 << i);\<close>
\<close>

function bitap_masks :: "byte list \<Rightarrow> nat \<Rightarrow> nat \<Rightarrow> 32 word list \<Rightarrow> error + 32 word list" where
  "bitap_masks nd needleLength i masks =
     (if i < needleLength then
        (case rd nd i of
           Inl e \<Rightarrow> Inl e
         | Inr c \<Rightarrow>
             bitap_masks nd needleLength (i + 1)
               (masks[of_char c := masks ! of_char c AND NOT (push_bit i 1)]))
      else Inr masks)"
  by pat_completeness auto
termination
  by (relation "measure (\<lambda>(nd, needleLength, i, masks). needleLength - i)") auto

declare bitap_masks.simps [simp del]

text \<open>
  \<^verbatim>\<open>return (haystack - needleLength) + 1\<close>, for the pointer at offset \<open>p\<close>.
\<close>

definition bitap_result :: "nat \<Rightarrow> nat \<Rightarrow> found" where
  "bitap_result p needleLength =
     (if int p - int needleLength + 1 < 0 then Inl BadPointer
      else Inr (Some (nat (int p - int needleLength + 1))))"

text \<open>The scan \<^verbatim>\<open>while (haystack != haystackEnd)\<close> of \<^verbatim>\<open>searchBitap\<close>.\<close>

function bitap_loop ::
  "byte list \<Rightarrow> nat \<Rightarrow> nat \<Rightarrow> 32 word list \<Rightarrow> 32 word \<Rightarrow> 32 word \<Rightarrow> nat \<Rightarrow> found" where
  "bitap_loop hs p haystackEnd masks state FullMatch needleLength =
     (if p \<noteq> haystackEnd then
        (case rd hs p of
           Inl e \<Rightarrow> Inl e
         | Inr b \<Rightarrow>
             let state' = push_bit 1 (state OR masks ! of_char b)
             in if state' AND FullMatch = 0 then bitap_result p needleLength
                else bitap_loop hs (p + 1) haystackEnd masks state' FullMatch needleLength)
      else Inr None)"
  by pat_completeness auto
termination
  by (relation "measure (\<lambda>(hs, p, haystackEnd, masks, state, FullMatch, needleLength).
        length hs - p)")
    (auto simp: rd_def split: if_splits)

declare bitap_loop.simps [simp del]

definition searchBitap :: "cptr \<Rightarrow> nat \<Rightarrow> cptr \<Rightarrow> nat \<Rightarrow> found" where
  "searchBitap haystack haystackLength needle needleLength =
     (case haystack of
        None \<Rightarrow> Inr None
      | Some hs \<Rightarrow>
          (case needle of
             None \<Rightarrow> Inr None
           | Some nd \<Rightarrow>
               if haystackLength < needleLength then Inr None
               else if needleLength = 0 then Inr (Some 0)
               else if needleLength > MaxBitWidth
               then searchNative haystack haystackLength needle needleLength
               else
                 (case bitap_masks nd needleLength 0 (replicate AlphabetSize (NOT 0)) of
                    Inl e \<Rightarrow> Inl e
                  | Inr masks \<Rightarrow>
                      bitap_loop hs 0 (0 + haystackLength) masks (NOT 1)
                        (push_bit needleLength 1) needleLength)))"

text \<open>The scan \<^verbatim>\<open>while (*haystack)\<close> of \<^verbatim>\<open>searchBitapString\<close>.\<close>

function bitapString_loop ::
  "byte list \<Rightarrow> nat \<Rightarrow> 32 word list \<Rightarrow> 32 word \<Rightarrow> 32 word \<Rightarrow> nat \<Rightarrow> found" where
  "bitapString_loop hs p masks state FullMatch needleLength =
     (case rd hs p of
        Inl e \<Rightarrow> Inl e
      | Inr b \<Rightarrow>
          if b \<noteq> NUL then
            (let state' = push_bit 1 (state OR masks ! of_char b)
             in if state' AND FullMatch = 0 then bitap_result p needleLength
                else bitapString_loop hs (p + 1) masks state' FullMatch needleLength)
          else Inr None)"
  by pat_completeness auto
termination
  by (relation "measure (\<lambda>(hs, p, masks, state, FullMatch, needleLength). length hs - p)")
    (auto simp: rd_def split: if_splits)

declare bitapString_loop.simps [simp del]

definition searchBitapString :: "cptr \<Rightarrow> cptr \<Rightarrow> found" where
  "searchBitapString haystack needle =
     (case haystack of
        None \<Rightarrow> Inr None
      | Some hs \<Rightarrow>
          (case needle of
             None \<Rightarrow> Inr None
           | Some nd \<Rightarrow>
               (case strlen nd of
                  Inl e \<Rightarrow> Inl e
                | Inr needleLength \<Rightarrow>
                    if needleLength = 0 then Inr (Some 0)
                    else if needleLength > MaxBitWidth
                    then searchSimpleString haystack needle
                    else
                      (case bitap_masks nd needleLength 0 (replicate AlphabetSize (NOT 0)) of
                         Inl e \<Rightarrow> Inl e
                       | Inr masks \<Rightarrow>
                           bitapString_loop hs 0 masks (NOT 1)
                             (push_bit needleLength 1) needleLength))))"

section \<open>What a search has to return\<close>

text \<open>
  The needle occurs at offset \<open>q\<close> of the haystack when its bytes equal the haystack's
  bytes there, for the full length of the needle. The first occurrence is the least such
  offset. Both are stated on the bytes alone, with no reference to a matcher.
\<close>

definition occurs_at :: "byte list \<Rightarrow> byte list \<Rightarrow> nat \<Rightarrow> bool" where
  "occurs_at hs nd q \<longleftrightarrow> q + length nd \<le> length hs \<and> take (length nd) (drop q hs) = nd"

definition first_occurrence :: "byte list \<Rightarrow> byte list \<Rightarrow> nat option" where
  "first_occurrence hs nd = find (occurs_at hs nd) [0..<Suc (length hs)]"

text \<open>The same, by indices into the two objects (only used in proofs about the loops).\<close>

definition match_at :: "byte list \<Rightarrow> nat \<Rightarrow> byte list \<Rightarrow> nat \<Rightarrow> bool" where
  "match_at hs q nd n \<longleftrightarrow> (\<forall>k<n. hs ! (q + k) = nd ! k)"

lemma occurs_at_take:
  assumes "hl \<le> length hs" and "nl \<le> length nd"
  shows "occurs_at (take hl hs) (take nl nd) q \<longleftrightarrow> q + nl \<le> hl \<and> match_at hs q nd nl"
proof (cases "q + nl \<le> hl")
  case False
  with assms show ?thesis by (simp add: occurs_at_def)
next
  case True
  have "take nl (drop q (take hl hs)) = take nl nd \<longleftrightarrow> match_at hs q nd nl"
  proof
    assume eq: "take nl (drop q (take hl hs)) = take nl nd"
    show "match_at hs q nd nl"
      unfolding match_at_def
    proof (intro allI impI)
      fix k assume k: "k < nl"
      from eq have "take nl (drop q (take hl hs)) ! k = take nl nd ! k" by simp
      with k True assms show "hs ! (q + k) = nd ! k" by simp
    qed
  next
    assume m: "match_at hs q nd nl"
    show "take nl (drop q (take hl hs)) = take nl nd"
    proof (rule nth_equalityI)
      from True assms show "length (take nl (drop q (take hl hs))) = length (take nl nd)"
        by simp
    next
      fix k assume "k < length (take nl (drop q (take hl hs)))"
      with True assms have k: "k < nl" by simp
      with m have "hs ! (q + k) = nd ! k" by (simp add: match_at_def)
      with k True assms show "take nl (drop q (take hl hs)) ! k = take nl nd ! k" by simp
    qed
  qed
  with True assms show ?thesis by (simp add: occurs_at_def)
qed

lemma first_occurrence_SomeI:
  assumes "occurs_at hs nd q" and "\<And>q'. q' < q \<Longrightarrow> \<not> occurs_at hs nd q'"
  shows "first_occurrence hs nd = Some q"
proof -
  from assms(1) have "q < Suc (length hs)" by (simp add: occurs_at_def)
  with assms show ?thesis
    unfolding first_occurrence_def find_Some_iff
    by (intro exI [of _ q]) (simp del: upt_Suc)
qed

lemma first_occurrence_NoneI:
  assumes "\<And>q. \<not> occurs_at hs nd q"
  shows "first_occurrence hs nd = None"
  using assms unfolding first_occurrence_def find_None_iff by simp

lemma first_occurrence_Some_iff:
  "first_occurrence hs nd = Some q \<longleftrightarrow> occurs_at hs nd q \<and> (\<forall>q'<q. \<not> occurs_at hs nd q')"
proof
  assume "first_occurrence hs nd = Some q"
  then obtain i where i: "i < length [0..<Suc (length hs)]"
      "occurs_at hs nd ([0..<Suc (length hs)] ! i)" "q = [0..<Suc (length hs)] ! i"
      "\<forall>j<i. \<not> occurs_at hs nd ([0..<Suc (length hs)] ! j)"
    unfolding first_occurrence_def find_Some_iff by blast
  from i(1) have il: "i < Suc (length hs)" by simp
  then have qi: "[0..<Suc (length hs)] ! i = i" by (simp del: upt_Suc)
  have "\<not> occurs_at hs nd j" if "j < i" for j
  proof -
    from that il have "[0..<Suc (length hs)] ! j = j" by (simp del: upt_Suc)
    with i(4) that show ?thesis by metis
  qed
  with i qi show "occurs_at hs nd q \<and> (\<forall>q'<q. \<not> occurs_at hs nd q')" by simp
next
  assume "occurs_at hs nd q \<and> (\<forall>q'<q. \<not> occurs_at hs nd q')"
  then show "first_occurrence hs nd = Some q" by (intro first_occurrence_SomeI) auto
qed

lemma first_occurrence_None_iff:
  "first_occurrence hs nd = None \<longleftrightarrow> (\<forall>q. \<not> occurs_at hs nd q)"
proof
  assume n: "first_occurrence hs nd = None"
  show "\<forall>q. \<not> occurs_at hs nd q"
  proof (intro allI notI)
    fix q assume o: "occurs_at hs nd q"
    then have "q \<le> length hs" by (simp add: occurs_at_def)
    then have "q \<in> set [0..<Suc (length hs)]" by (simp add: less_Suc_eq_le del: upt_Suc)
    with n o show False unfolding first_occurrence_def find_None_iff by blast
  qed
next
  assume "\<forall>q. \<not> occurs_at hs nd q"
  then show "first_occurrence hs nd = None" by (intro first_occurrence_NoneI) simp
qed

text \<open>
  The last index at which a byte occurs in a list.
\<close>

fun rightmost :: "byte list \<Rightarrow> byte \<Rightarrow> nat option" where
  "rightmost [] c = None"
| "rightmost (x # xs) c =
     (case rightmost xs c of
        Some j \<Rightarrow> Some (Suc j)
      | None \<Rightarrow> if x = c then Some 0 else None)"

lemma rightmost_None_iff: "rightmost xs c = None \<longleftrightarrow> c \<notin> set xs"
  by (induction xs) (auto split: option.splits)

lemma rightmost_Some_iff:
  "rightmost xs c = Some j \<longleftrightarrow>
     j < length xs \<and> xs ! j = c \<and> (\<forall>j'. j < j' \<and> j' < length xs \<longrightarrow> xs ! j' \<noteq> c)"
proof (induction xs arbitrary: j)
  case Nil
  show ?case by simp
next
  case (Cons x xs)
  show ?case
  proof (cases "rightmost xs c")
    case None
    then have notin: "c \<notin> set xs" by (simp add: rightmost_None_iff)
    have "(j < length (x # xs) \<and> (x # xs) ! j = c
        \<and> (\<forall>j'. j < j' \<and> j' < length (x # xs) \<longrightarrow> (x # xs) ! j' \<noteq> c)) \<longleftrightarrow> (x = c \<and> j = 0)"
    proof
      assume a: "j < length (x # xs) \<and> (x # xs) ! j = c
        \<and> (\<forall>j'. j < j' \<and> j' < length (x # xs) \<longrightarrow> (x # xs) ! j' \<noteq> c)"
      show "x = c \<and> j = 0"
      proof (cases j)
        case 0
        with a show ?thesis by simp
      next
        case (Suc m)
        with a have "m < length xs" "xs ! m = c" by simp_all
        with notin show ?thesis by (metis nth_mem)
      qed
    next
      assume b: "x = c \<and> j = 0"
      have "(x # xs) ! j' \<noteq> c" if "0 < j'" "j' < length (x # xs)" for j'
      proof -
        from that obtain m where m: "j' = Suc m" by (cases j') auto
        with that have "m < length xs" by simp
        with notin have "xs ! m \<noteq> c" by (metis nth_mem)
        with m show ?thesis by simp
      qed
      with b show "j < length (x # xs) \<and> (x # xs) ! j = c
        \<and> (\<forall>j'. j < j' \<and> j' < length (x # xs) \<longrightarrow> (x # xs) ! j' \<noteq> c)" by simp
    qed
    with None show ?thesis by auto
  next
    case (Some i)
    then have i: "i < length xs" "xs ! i = c"
      "\<forall>j'. i < j' \<and> j' < length xs \<longrightarrow> xs ! j' \<noteq> c"
      using Cons.IH [of i] by simp_all
    have "(j < length (x # xs) \<and> (x # xs) ! j = c
        \<and> (\<forall>j'. j < j' \<and> j' < length (x # xs) \<longrightarrow> (x # xs) ! j' \<noteq> c)) \<longleftrightarrow> j = Suc i"
    proof
      assume a: "j < length (x # xs) \<and> (x # xs) ! j = c
        \<and> (\<forall>j'. j < j' \<and> j' < length (x # xs) \<longrightarrow> (x # xs) ! j' \<noteq> c)"
      show "j = Suc i"
      proof (rule ccontr)
        assume ne: "j \<noteq> Suc i"
        show False
        proof (cases "j < Suc i")
          case True
          from a have "\<forall>j'. j < j' \<and> j' < length (x # xs) \<longrightarrow> (x # xs) ! j' \<noteq> c"
            by blast
          then have "j < Suc i \<and> Suc i < length (x # xs) \<longrightarrow> (x # xs) ! Suc i \<noteq> c"
            by blast
          with True i(1) have "(x # xs) ! Suc i \<noteq> c" by simp
          with i(2) show False by simp
        next
          case False
          with ne obtain m where m: "j = Suc m" "i < m" by (cases j) auto
          with a have "m < length xs" "xs ! m = c" by simp_all
          with i(3) m show False by blast
        qed
      qed
    next
      assume b: "j = Suc i"
      have "(x # xs) ! j' \<noteq> c" if "j < j'" "j' < length (x # xs)" for j'
      proof -
        from that b obtain m where m: "j' = Suc m" "i < m" by (cases j') auto
        with that have "m < length xs" by simp
        with i(3) m have "xs ! m \<noteq> c" by blast
        with m show ?thesis by simp
      qed
      with b i show "j < length (x # xs) \<and> (x # xs) ! j = c
        \<and> (\<forall>j'. j < j' \<and> j' < length (x # xs) \<longrightarrow> (x # xs) ! j' \<noteq> c)" by simp
    qed
    with Some show ?thesis by auto
  qed
qed

lemma rightmost_snoc:
  "rightmost (xs @ [x]) c = (if x = c then Some (length xs) else rightmost xs c)"
  by (induction xs) (auto split: option.splits)

section \<open>Boyer-Moore-Horspool: the table, termination and the result\<close>

text \<open>
  The entry of byte \<open>c\<close> in Horspool's table for a needle: the distance from the last
  occurrence of \<open>c\<close> among the needle's bytes other than the last one to the needle's last
  position, and the needle's length when \<open>c\<close> does not occur among them.
\<close>

definition horspool_skip :: "byte list \<Rightarrow> byte \<Rightarrow> nat" where
  "horspool_skip needle c =
     (case rightmost (butlast needle) c of
        None \<Rightarrow> length needle
      | Some j \<Rightarrow> length needle - 1 - j)"

lemma horspool_skip_bounds:
  assumes "needle \<noteq> []"
  shows "1 \<le> horspool_skip needle c \<and> horspool_skip needle c \<le> length needle"
proof (cases "rightmost (butlast needle) c")
  case None
  with assms show ?thesis by (simp add: horspool_skip_def Suc_leI)
next
  case (Some j)
  then have "j < length (butlast needle)" by (simp add: rightmost_Some_iff)
  with Some show ?thesis by (simp add: horspool_skip_def)
qed

lemma horspool_skip_take:
  assumes "0 < nl" and "nl \<le> length nd"
  shows "horspool_skip (take nl nd) c =
    (case rightmost (take (nl - 1) nd) c of None \<Rightarrow> nl | Some j \<Rightarrow> nl - 1 - j)"
  using assms by (simp add: horspool_skip_def butlast_take split: option.splits)

lemma bmh_prepare_length:
  "bmh_prepare nd lastPos pos skip = Inr skip' \<Longrightarrow> length skip' = length skip"
proof (induction nd lastPos pos skip rule: bmh_prepare.induct)
  case (1 nd lastPos pos skip)
  show ?case
  proof (cases "pos < lastPos")
    case True
    with "1.prems" "1.IH" show ?thesis
      by (subst (asm) bmh_prepare.simps) (auto split: sum.splits)
  next
    case False
    with "1.prems" show ?thesis by (subst (asm) bmh_prepare.simps) simp
  qed
qed

text \<open>
  The invariant of the table loop: after the positions below \<open>pos\<close>, the entry of each
  byte is given by its last occurrence among those positions.
\<close>

lemma bmh_prepare_table:
  assumes "lastPos < length nd" and "pos \<le> lastPos" and "length skip = NumChar"
    and "\<And>c. skip ! of_char c =
          (case rightmost (take pos nd) c of None \<Rightarrow> d | Some j \<Rightarrow> lastPos - j)"
  shows "\<exists>skip'. bmh_prepare nd lastPos pos skip = Inr skip' \<and> length skip' = NumChar
          \<and> (\<forall>c. skip' ! of_char c =
                (case rightmost (take lastPos nd) c of None \<Rightarrow> d | Some j \<Rightarrow> lastPos - j))"
  using assms
proof (induction nd lastPos pos skip rule: bmh_prepare.induct)
  case (1 nd lastPos pos skip)
  show ?case
  proof (cases "pos < lastPos")
    case False
    with "1.prems" have "pos = lastPos" by simp
    with "1.prems" show ?thesis by (subst bmh_prepare.simps) simp
  next
    case True
    with "1.prems" have rd: "rd nd pos = Inr (nd ! pos)" by (simp add: rd_def)
    let ?skip = "skip[of_char (nd ! pos) := lastPos - pos]"
    have tk: "take (Suc pos) nd = take pos nd @ [nd ! pos]"
      using True "1.prems"(1) by (simp add: take_Suc_conv_app_nth)
    have inv: "?skip ! of_char c =
        (case rightmost (take (pos + 1) nd) c of None \<Rightarrow> d | Some j \<Rightarrow> lastPos - j)" for c
    proof (cases "nd ! pos = c")
      case True
      have "(of_char c :: nat) < length skip" using "1.prems"(3) by (simp add: NumChar_def)
      with True \<open>pos < lastPos\<close> "1.prems"(1) show ?thesis
        by (simp add: tk rightmost_snoc)
    next
      case False
      then have "(of_char (nd ! pos) :: nat) \<noteq> of_char c" by simp
      with False "1.prems"(4) [of c] show ?thesis
        by (simp add: tk rightmost_snoc)
    qed
    have "\<exists>skip'. bmh_prepare nd lastPos (pos + 1) ?skip = Inr skip' \<and> length skip' = NumChar
          \<and> (\<forall>c. skip' ! of_char c =
                (case rightmost (take lastPos nd) c of None \<Rightarrow> d | Some j \<Rightarrow> lastPos - j))"
      using "1.IH" [OF True rd] "1.prems"(1,3) True inv by simp
    with True rd show ?thesis by (subst bmh_prepare.simps) simp
  qed
qed

lemma bmh_table_horspool:
  assumes "0 < needleLength" and "needleLength \<le> length nd" and "needleLength < 2 ^ 64"
  shows "\<exists>skip. bmh_table nd needleLength = Inr skip \<and> length skip = NumChar
          \<and> (\<forall>c. skip ! of_char c = horspool_skip (take needleLength nd) c)"
proof -
  from assms have ls: "size_sub needleLength 1 = needleLength - 1"
    by (intro size_sub_eq) simp_all
  have init: "replicate NumChar needleLength ! of_char c =
      (case rightmost (take 0 nd) c of None \<Rightarrow> needleLength | Some j \<Rightarrow> needleLength - 1 - j)"
    for c :: byte
    by (simp add: NumChar_def)
  from assms have "needleLength - 1 < length nd" by simp
  from bmh_prepare_table [OF this, of 0 "replicate NumChar needleLength" needleLength] init
  obtain skip where skip: "bmh_prepare nd (needleLength - 1) 0 (replicate NumChar needleLength) = Inr skip"
      "length skip = NumChar"
      "\<forall>c. skip ! of_char c =
         (case rightmost (take (needleLength - 1) nd) c of
            None \<Rightarrow> needleLength | Some j \<Rightarrow> needleLength - 1 - j)"
    by auto
  have "bmh_table nd needleLength = Inr skip"
    unfolding bmh_table_def ls by (rule skip(1))
  moreover have "skip ! of_char c = horspool_skip (take needleLength nd) c" for c
    unfolding horspool_skip_take [OF assms(1,2)] by (rule skip(3) [rule_format])
  ultimately show ?thesis using skip(2) by blast
qed

text \<open>The comparison of a window that lies inside both objects decides the match.\<close>

lemma bmh_compare_match:
  assumes "p + i < length hs" and "i < length nd"
  shows "bmh_compare hs p nd i = Inr (match_at hs p nd (Suc i))"
  using assms
proof (induction i)
  case 0
  then show ?case
    by (subst bmh_compare.simps) (simp add: rd_def match_at_def)
next
  case (Suc i)
  then have IH: "bmh_compare hs p nd i = Inr (match_at hs p nd (Suc i))" by simp
  have "match_at hs p nd (Suc (Suc i)) \<longleftrightarrow>
      hs ! (p + Suc i) = nd ! Suc i \<and> match_at hs p nd (Suc i)"
    by (auto simp: match_at_def less_Suc_eq)
  with Suc.prems IH show ?case
    by (subst bmh_compare.simps) (simp add: rd_def)
qed

text \<open>
  A shift by the table entry of the marker byte passes over no occurrence.
\<close>

lemma horspool_shift_safe:
  assumes nl: "0 < nl" "nl \<le> length nd"
    and m: "match_at hs (p + d) nd nl" and d: "0 < d"
  shows "horspool_skip (take nl nd) (hs ! (p + (nl - 1))) \<le> d"
proof (cases "d < nl")
  case False
  with horspool_skip_bounds [of "take nl nd" "hs ! (p + (nl - 1))"] nl show ?thesis
    by (cases "take nl nd = []") auto
next
  case True
  let ?k = "nl - 1 - d"
  let ?c = "hs ! (p + (nl - 1))"
  from True d have k: "?k < nl - 1" by arith
  from True have e: "p + d + ?k = p + (nl - 1)" by arith
  from m k have "hs ! (p + d + ?k) = nd ! ?k" by (simp add: match_at_def)
  then have ndk: "nd ! ?k = ?c" by (metis e)
  from nl have bl: "butlast (take nl nd) = take (nl - 1) nd" by (simp add: butlast_take)
  from k nl have kl: "?k < length (take (nl - 1) nd)" by simp
  with ndk k have "?c \<in> set (take (nl - 1) nd)"
    by (metis nth_mem nth_take)
  then obtain j where j: "rightmost (take (nl - 1) nd) ?c = Some j"
    by (metis rightmost_None_iff not_Some_eq)
  then have jl: "j < length (take (nl - 1) nd)"
    and jmax: "\<forall>j'. j < j' \<and> j' < length (take (nl - 1) nd) \<longrightarrow> take (nl - 1) nd ! j' \<noteq> ?c"
    by (simp_all add: rightmost_Some_iff)
  have "?k \<le> j"
  proof (rule ccontr)
    assume "\<not> ?k \<le> j"
    with jmax kl have "take (nl - 1) nd ! ?k \<noteq> ?c" by simp
    with k ndk show False by simp
  qed
  moreover from nl have "length (take nl nd) = nl" by simp
  ultimately show ?thesis
    using j jl True by (simp add: horspool_skip_def bl)
qed

text \<open>
  Total correctness of the walk, by induction on the remaining length: it returns, with
  no read outside the haystack, the first occurrence.
\<close>

lemma bmh_loop_first_occurrence:
  assumes hl: "hl \<le> length hs" "hl < 2 ^ 64" and nl: "0 < nl" "nl \<le> length nd"
    and len: "length skip = NumChar"
    and tab: "\<And>c. skip ! of_char c = horspool_skip (take nl nd) c"
  shows "p + rest = hl \<Longrightarrow> (\<And>q. q < p \<Longrightarrow> \<not> occurs_at (take hl hs) (take nl nd) q)
    \<Longrightarrow> bmh_loop hs p rest nd nl (nl - 1) skip
          = Some (Inr (first_occurrence (take hl hs) (take nl nd)))"
proof (induction rest arbitrary: p rule: less_induct)
  case (less rest)
  note occ = occurs_at_take [OF hl(1) nl(2)]
  show ?case
  proof (cases "nl \<le> rest")
    case False
    have "\<not> occurs_at (take hl hs) (take nl nd) q" for q
    proof (cases "q < p")
      case True
      then show ?thesis by (rule less.prems(2))
    next
      case qp: False
      with False less.prems(1) show ?thesis by (simp add: occ)
    qed
    then have "first_occurrence (take hl hs) (take nl nd) = None"
      by (rule first_occurrence_NoneI)
    with False show ?thesis by (subst bmh_loop.simps) simp
  next
    case True
    with less.prems(1) hl nl have inb: "p + (nl - 1) < length hs" "nl - 1 < length nd"
      by simp_all
    from nl have suc: "Suc (nl - Suc 0) = nl" by simp
    have cmp: "bmh_compare hs p nd (nl - 1) = Inr (match_at hs p nd nl)"
      using bmh_compare_match [OF inb] by (simp add: suc)
    show ?thesis
    proof (cases "match_at hs p nd nl")
      case m: True
      with True less.prems(1) have "occurs_at (take hl hs) (take nl nd) p" by (simp add: occ)
      then have "first_occurrence (take hl hs) (take nl nd) = Some p"
        using less.prems(2) by (rule first_occurrence_SomeI)
      with True cmp m show ?thesis by (subst bmh_loop.simps) simp
    next
      case m: False
      let ?c = "hs ! (p + (nl - 1))"
      let ?s = "skip ! of_char ?c"
      have s: "?s = horspool_skip (take nl nd) ?c" by (rule tab)
      from nl have "take nl nd \<noteq> []" by auto
      from horspool_skip_bounds [OF this, of ?c] nl s have sb: "1 \<le> ?s" "?s \<le> nl"
        by simp_all
      from sb True have "?s \<le> rest" by linarith
      moreover from less.prems(1) hl have "rest < 2 ^ 64" by linarith
      ultimately have sub: "size_sub rest ?s = rest - ?s" by (rule size_sub_eq)
      from sb True have dec: "rest - ?s < rest" by linarith
      from sb True less.prems(1) have sum: "p + ?s + (rest - ?s) = hl" by linarith
      have none: "\<not> occurs_at (take hl hs) (take nl nd) q" if "q < p + ?s" for q
      proof (cases "q < p")
        case True
        then show ?thesis by (rule less.prems(2))
      next
        case False
        show ?thesis
        proof (cases "q = p")
          case True
          with m show ?thesis by (simp add: occ)
        next
          case qne: False
          with False obtain d where d: "q = p + d" "0 < d"
            by (intro that [of "q - p"]) simp_all
          show ?thesis
          proof
            assume "occurs_at (take hl hs) (take nl nd) q"
            with d have "match_at hs (p + d) nd nl" by (simp add: occ)
            from horspool_shift_safe [OF nl this d(2)] s have "?s \<le> d" by simp
            with that d show False by simp
          qed
        qed
      qed
      have "bmh_loop hs (p + ?s) (rest - ?s) nd nl (nl - 1) skip
          = Some (Inr (first_occurrence (take hl hs) (take nl nd)))"
        using less.IH [OF dec sum] none by blast
      with True cmp m inb sub show ?thesis
        by (subst bmh_loop.simps) (simp add: rd_def)
    qed
  qed
qed

lemma searchBoyerMooreHorspool_first_occurrence:
  assumes "haystackLength \<le> length hs" and "needleLength \<le> length nd"
    and "haystackLength < 2 ^ 64"
  shows "searchBoyerMooreHorspool (Some hs) haystackLength (Some nd) needleLength
          = Some (Inr (first_occurrence (take haystackLength hs) (take needleLength nd)))"
proof (cases "haystackLength < needleLength")
  case True
  with assms have "\<not> occurs_at (take haystackLength hs) (take needleLength nd) q" for q
    by (simp add: occurs_at_take)
  then have "first_occurrence (take haystackLength hs) (take needleLength nd) = None"
    by (rule first_occurrence_NoneI)
  with True show ?thesis by (simp add: searchBoyerMooreHorspool_def)
next
  case False
  show ?thesis
  proof (cases "needleLength = 0")
    case True
    have "occurs_at (take haystackLength hs) (take needleLength nd) 0"
      using True by (simp add: occurs_at_def)
    then have "first_occurrence (take haystackLength hs) (take needleLength nd) = Some 0"
      by (rule first_occurrence_SomeI) simp
    with True show ?thesis by (simp add: searchBoyerMooreHorspool_def)
  next
    case nz: False
    with False assms have nl: "0 < needleLength" "needleLength < 2 ^ 64" by simp_all
    from bmh_table_horspool [OF nl(1) assms(2) nl(2)]
    obtain skip where skip: "bmh_table nd needleLength = Inr skip" "length skip = NumChar"
        "\<And>c. skip ! of_char c = horspool_skip (take needleLength nd) c"
      by auto
    from nl have ls: "size_sub needleLength 1 = needleLength - 1"
      by (intro size_sub_eq) simp_all
    have "bmh_loop hs 0 haystackLength nd needleLength (needleLength - 1) skip
        = Some (Inr (first_occurrence (take haystackLength hs) (take needleLength nd)))"
      by (rule bmh_loop_first_occurrence [OF assms(1,3) nl(1) assms(2) skip(2,3)]) simp_all
    with False nz skip(1) show ?thesis
      unfolding searchBoyerMooreHorspool_def ls by simp
  qed
qed

text \<open>The entry of one byte in the table as \<^verbatim>\<open>searchBoyerMooreHorspool\<close> builds it.\<close>

definition bmh_entry :: "byte list \<Rightarrow> nat \<Rightarrow> byte \<Rightarrow> error + nat" where
  "bmh_entry nd needleLength c =
     (case bmh_table nd needleLength of
        Inl e \<Rightarrow> Inl e
      | Inr skip \<Rightarrow> Inr (skip ! of_char c))"

text \<open>
  The table entry in the words of the specification: the distance from the last
  occurrence of the byte in the needle to the needle's last position, and the needle's
  length for a byte that is absent from the needle.
\<close>

definition spec_skip :: "byte list \<Rightarrow> byte \<Rightarrow> nat" where
  "spec_skip needle c =
     (case rightmost needle c of
        None \<Rightarrow> length needle
      | Some j \<Rightarrow> length needle - 1 - j)"

lemma bmh_entry_horspool:
  assumes "0 < needleLength" and "needleLength \<le> length nd" and "needleLength < 2 ^ 64"
  shows "bmh_entry nd needleLength c = Inr (horspool_skip (take needleLength nd) c)"
proof -
  from bmh_table_horspool [OF assms]
  obtain skip where "bmh_table nd needleLength = Inr skip"
      "\<forall>c. skip ! of_char c = horspool_skip (take needleLength nd) c"
    by blast
  then show ?thesis by (simp add: bmh_entry_def)
qed

lemma bmh_table_bounds:
  assumes "0 < needleLength" and "needleLength \<le> length nd" and "needleLength < 2 ^ 64"
  shows "\<exists>skip. bmh_table nd needleLength = Inr skip \<and> length skip = NumChar
          \<and> (\<forall>c<NumChar. 1 \<le> skip ! c \<and> skip ! c \<le> needleLength)"
proof -
  from bmh_table_horspool [OF assms]
  obtain skip where skip: "bmh_table nd needleLength = Inr skip" "length skip = NumChar"
      "\<forall>c. skip ! of_char c = horspool_skip (take needleLength nd) c"
    by blast
  from assms have ne: "take needleLength nd \<noteq> []" by auto
  from assms have ln: "length (take needleLength nd) = needleLength" by simp
  have "1 \<le> skip ! c \<and> skip ! c \<le> needleLength" if "c < NumChar" for c
  proof -
    from that have "of_char (char_of c) = c" by (simp add: NumChar_def)
    with skip(3) have "skip ! c = horspool_skip (take needleLength nd) (char_of c)"
      by metis
    with horspool_skip_bounds [OF ne, of "char_of c"] ln show ?thesis by simp
  qed
  with skip(1,2) show ?thesis by blast
qed

text \<open>One step of the walk after a mismatch, as the loop's equation gives it.\<close>

lemma bmh_loop_advance:
  assumes "needleLength \<le> rest" and "bmh_compare hs p nd lastPos = Inr False"
    and "rd hs (p + lastPos) = Inr marker"
  shows "bmh_loop hs p rest nd needleLength lastPos skip =
         bmh_loop hs (p + skip ! of_char marker) (size_sub rest (skip ! of_char marker))
           nd needleLength lastPos skip"
  using assms by (subst bmh_loop.simps) simp

section \<open>Bitap: the masks, the state and the result\<close>

lemma fullmatch_test:
  fixes w :: "32 word"
  shows "w AND push_bit n 1 = 0 \<longleftrightarrow> \<not> bit w n"
  by (simp add: push_bit_of_1 and_exp_eq_0_iff_not_bit)

lemma bit_clear_mask:
  fixes w :: "32 word"
  shows "bit (w AND NOT (push_bit i 1)) j \<longleftrightarrow> bit w j \<and> j \<noteq> i"
  by (auto simp: bit_simps dest: bit_imp_le_length)

lemma bit_step:
  fixes s m :: "32 word"
  shows "bit (push_bit 1 (s OR m)) j \<longleftrightarrow> j < 32 \<and> 0 < j \<and> (bit s (j - 1) \<or> bit m (j - 1))"
  unfolding bit_push_bit_iff bit_or_iff by (auto simp: possible_bit_word)

lemma bit_init: "bit (NOT 1 :: 32 word) j \<longleftrightarrow> j < 32 \<and> j \<noteq> 0"
  by (auto simp: bit_simps)

lemma bit_ones: "bit (NOT 0 :: 32 word) j \<longleftrightarrow> j < 32"
  by (auto simp: bit_simps)

text \<open>
  The mask loop clears bit \<open>j\<close> of the mask of byte \<open>c\<close> for each position \<open>j\<close> it visits
  with \<open>needle[j] = c\<close>, and changes nothing else.
\<close>

lemma bitap_masks_bits:
  assumes "needleLength \<le> length nd" and "length masks = AlphabetSize"
  shows "\<exists>masks'. bitap_masks nd needleLength i masks = Inr masks'
          \<and> length masks' = AlphabetSize
          \<and> (\<forall>c j. bit (masks' ! of_char c) j \<longleftrightarrow>
                bit (masks ! of_char c) j \<and> \<not> (i \<le> j \<and> j < needleLength \<and> nd ! j = c))"
  using assms
proof (induction nd needleLength i masks rule: bitap_masks.induct)
  case (1 nd needleLength i masks)
  show ?case
  proof (cases "i < needleLength")
    case False
    then show ?thesis using "1.prems" by (subst bitap_masks.simps) auto
  next
    case True
    with "1.prems" have rd: "rd nd i = Inr (nd ! i)" by (simp add: rd_def)
    let ?m = "masks[of_char (nd ! i) := masks ! of_char (nd ! i) AND NOT (push_bit i 1)]"
    from "1.prems" have len: "length ?m = AlphabetSize" by simp
    from "1.IH" [OF True rd "1.prems"(1) len]
    obtain masks' where m': "bitap_masks nd needleLength (i + 1) ?m = Inr masks'"
        "length masks' = AlphabetSize"
        "\<forall>c j. bit (masks' ! of_char c) j \<longleftrightarrow>
            bit (?m ! of_char c) j \<and> \<not> (i + 1 \<le> j \<and> j < needleLength \<and> nd ! j = c)"
      by blast
    have upd: "bit (?m ! of_char c) j \<longleftrightarrow> bit (masks ! of_char c) j \<and> \<not> (j = i \<and> nd ! i = c)"
      for c j
    proof (cases "nd ! i = c")
      case True
      have "(of_char c :: nat) < length masks"
        using "1.prems"(2) by (simp add: AlphabetSize_def)
      with True have "?m ! of_char c = masks ! of_char c AND NOT (push_bit i 1)"
        by (simp only: nth_list_update_eq)
      then have "bit (?m ! of_char c) j \<longleftrightarrow> bit (masks ! of_char c) j \<and> j \<noteq> i"
        by (simp only: bit_clear_mask)
      with True show ?thesis by blast
    next
      case False
      then have "(of_char (nd ! i) :: nat) \<noteq> of_char c" by simp
      with False show ?thesis by simp
    qed
    have "bit (masks' ! of_char c) j \<longleftrightarrow>
        bit (masks ! of_char c) j \<and> \<not> (i \<le> j \<and> j < needleLength \<and> nd ! j = c)" for c j
    proof -
      have "i \<le> j \<longleftrightarrow> j = i \<or> i + 1 \<le> j" by arith
      with m'(3) upd [of c j] True show ?thesis by auto
    qed
    with m'(1,2) True rd show ?thesis by (subst bitap_masks.simps) simp
  qed
qed

lemma match_at_Suc:
  "match_at hs q nd (Suc j) \<longleftrightarrow> match_at hs q nd j \<and> hs ! (q + j) = nd ! j"
  by (auto simp: match_at_def less_Suc_eq)

text \<open>
  The invariant of the scan: after the bytes below \<open>p\<close>, bit \<open>j\<close> of the state is clear
  exactly when the \<open>j\<close> bytes before \<open>p\<close> are the first \<open>j\<close> bytes of the needle. The scan
  returns the first occurrence, and reads the haystack below \<^verbatim>\<open>haystackEnd\<close> only.
\<close>

lemma bitap_loop_first_occurrence:
  assumes hl: "hl \<le> length hs" and nl: "0 < nl" "nl < 32" "nl \<le> length nd"
    and masks: "\<And>c j. bit (masks ! of_char c) j \<longleftrightarrow> j < 32 \<and> \<not> (j < nl \<and> nd ! j = c)"
  shows "p \<le> hl
    \<Longrightarrow> (\<And>j. j < 32 \<Longrightarrow> bit state j \<longleftrightarrow> \<not> (j \<le> nl \<and> j \<le> p \<and> match_at hs (p - j) nd j))
    \<Longrightarrow> (\<And>q. q + nl \<le> p \<Longrightarrow> \<not> match_at hs q nd nl)
    \<Longrightarrow> bitap_loop hs p hl masks state (push_bit nl 1) nl
          = Inr (first_occurrence (take hl hs) (take nl nd))"
proof (induction "hl - p" arbitrary: p state)
  case 0
  then have "p = hl" by simp
  have "\<not> occurs_at (take hl hs) (take nl nd) q" for q
    using "0.prems"(3) [of q] \<open>p = hl\<close> by (simp add: occurs_at_take [OF hl nl(3)])
  then have "first_occurrence (take hl hs) (take nl nd) = None"
    by (rule first_occurrence_NoneI)
  with \<open>p = hl\<close> show ?case by (subst bitap_loop.simps) simp
next
  case (Suc n)
  then have pl: "p < hl" by simp
  with hl have rd: "rd hs p = Inr (hs ! p)" by (simp add: rd_def)
  define s' :: "32 word" where "s' = push_bit 1 (state OR masks ! of_char (hs ! p))"
  have bs: "bit s' j \<longleftrightarrow>
      j < 32 \<and> 0 < j \<and> (bit state (j - 1) \<or> bit (masks ! of_char (hs ! p)) (j - 1))" for j
    unfolding s'_def by (rule bit_step)
  have step: "bitap_loop hs p hl masks state (push_bit nl 1) nl =
      (if s' AND push_bit nl 1 = 0 then bitap_result p nl
       else bitap_loop hs (p + 1) hl masks s' (push_bit nl 1) nl)"
    unfolding s'_def using pl rd by (subst bitap_loop.simps) (simp add: Let_def)
  have inv: "bit s' j \<longleftrightarrow> \<not> (j \<le> nl \<and> j \<le> p + 1 \<and> match_at hs (p + 1 - j) nd j)"
    if "j < 32" for j
  proof (cases j)
    case 0
    then show ?thesis by (simp add: bs match_at_def)
  next
    case (Suc k)
    with that have k: "k < 32" by simp
    have "bit s' (Suc k) \<longleftrightarrow> bit state k \<or> bit (masks ! of_char (hs ! p)) k"
      using that Suc by (simp add: bs)
    also have "\<dots> \<longleftrightarrow> \<not> (k \<le> nl \<and> k \<le> p \<and> match_at hs (p - k) nd k)
        \<or> \<not> (k < nl \<and> nd ! k = hs ! p)"
      using Suc.prems(2) [OF k] masks [of "hs ! p" k] k by simp
    also have "\<dots> \<longleftrightarrow> \<not> (Suc k \<le> nl \<and> Suc k \<le> p + 1 \<and> match_at hs (p + 1 - Suc k) nd (Suc k))"
    proof (cases "k \<le> p")
      case True
      then have "p - k + k = p" by simp
      with True show ?thesis by (auto simp: match_at_Suc)
    next
      case False
      then show ?thesis by simp
    qed
    finally show ?thesis using Suc by simp
  qed
  show ?case
  proof (cases "bit s' nl")
    case False
    with inv [OF nl(2)] have hit: "nl \<le> p + 1" "match_at hs (p + 1 - nl) nd nl" by simp_all
    have res: "bitap_result p nl = Inr (Some (p + 1 - nl))"
      using hit(1) by (simp add: bitap_result_def)
    from hit pl have "occurs_at (take hl hs) (take nl nd) (p + 1 - nl)"
      by (simp add: occurs_at_take [OF hl nl(3)])
    moreover have "\<not> occurs_at (take hl hs) (take nl nd) q" if "q < p + 1 - nl" for q
    proof -
      from that have "q + nl \<le> p" by simp
      from Suc.prems(3) [OF this] show ?thesis by (simp add: occurs_at_take [OF hl nl(3)])
    qed
    ultimately have fo: "first_occurrence (take hl hs) (take nl nd) = Some (p + 1 - nl)"
      by (rule first_occurrence_SomeI)
    from False have z: "s' AND push_bit nl 1 = 0" using fullmatch_test [of s' nl] by blast
    have "bitap_loop hs p hl masks state (push_bit nl 1) nl = bitap_result p nl"
      by (subst step) (rule if_P [OF z])
    with res fo show ?thesis by simp
  next
    case True
    with inv [OF nl(2)] have nohit: "\<not> (nl \<le> p + 1 \<and> match_at hs (p + 1 - nl) nd nl)" by simp
    have none: "\<not> match_at hs q nd nl" if "q + nl \<le> p + 1" for q
    proof (cases "q + nl \<le> p")
      case True
      then show ?thesis by (rule Suc.prems(3))
    next
      case False
      with that have "q = p + 1 - nl" "nl \<le> p + 1" by simp_all
      with nohit show ?thesis by simp
    qed
    from Suc.hyps(2) pl have n: "n = hl - (p + 1)" by simp
    from pl have "p + 1 \<le> hl" by simp
    from Suc.hyps(1) [OF n this inv none]
    have rec: "bitap_loop hs (p + 1) hl masks s' (push_bit nl 1) nl
        = Inr (first_occurrence (take hl hs) (take nl nd))" .
    from True have nz: "s' AND push_bit nl 1 \<noteq> 0"
      using fullmatch_test [of s' nl] by blast
    have "bitap_loop hs p hl masks state (push_bit nl 1) nl
        = bitap_loop hs (p + 1) hl masks s' (push_bit nl 1) nl"
      by (subst step) (rule if_not_P [OF nz])
    with rec show ?thesis by simp
  qed
qed

lemma searchBitap_first_occurrence:
  assumes "haystackLength \<le> length hs" and "needleLength \<le> length nd"
    and "needleLength \<le> MaxBitWidth"
  shows "searchBitap (Some hs) haystackLength (Some nd) needleLength
          = Inr (first_occurrence (take haystackLength hs) (take needleLength nd))"
proof (cases "haystackLength < needleLength")
  case True
  with assms have "\<not> occurs_at (take haystackLength hs) (take needleLength nd) q" for q
    by (simp add: occurs_at_take)
  then have "first_occurrence (take haystackLength hs) (take needleLength nd) = None"
    by (rule first_occurrence_NoneI)
  with True show ?thesis by (simp add: searchBitap_def)
next
  case False
  show ?thesis
  proof (cases "needleLength = 0")
    case True
    have "occurs_at (take haystackLength hs) (take needleLength nd) 0"
      using True by (simp add: occurs_at_def)
    then have "first_occurrence (take haystackLength hs) (take needleLength nd) = Some 0"
      by (rule first_occurrence_SomeI) simp
    with True show ?thesis by (simp add: searchBitap_def)
  next
    case nz: False
    with assms(3) have nl: "0 < needleLength" "needleLength < 32"
      by (simp_all add: MaxBitWidth_def)
    from bitap_masks_bits [OF assms(2), of "replicate AlphabetSize (NOT 0)" 0]
    obtain masks where masks: "bitap_masks nd needleLength 0 (replicate AlphabetSize (NOT 0)) = Inr masks"
        "\<forall>c j. bit (masks ! of_char c) j \<longleftrightarrow>
            bit (replicate AlphabetSize (NOT 0 :: 32 word) ! of_char c) j
            \<and> \<not> (0 \<le> j \<and> j < needleLength \<and> nd ! j = c)"
      by auto
    have mb: "bit (masks ! of_char c) j \<longleftrightarrow> j < 32 \<and> \<not> (j < needleLength \<and> nd ! j = c)"
      for c j
      using masks(2) by (simp add: AlphabetSize_def bit_ones)
    have init: "bit (NOT 1 :: 32 word) j \<longleftrightarrow>
        \<not> (j \<le> needleLength \<and> j \<le> 0 \<and> match_at hs (0 - j) nd j)" if "j < 32" for j
      using that by (auto simp: bit_init match_at_def)
    have "bitap_loop hs 0 haystackLength masks (NOT 1) (push_bit needleLength 1) needleLength
        = Inr (first_occurrence (take haystackLength hs) (take needleLength nd))"
      using nl by (intro bitap_loop_first_occurrence [OF assms(1) nl assms(2) mb] init) simp_all
    with False nz assms(3) masks(1) show ?thesis by (simp add: searchBitap_def)
  qed
qed

text \<open>A needle longer than \<open>MaxBitWidth\<close> is handed over, with the same arguments.\<close>

lemma searchBitap_delegates:
  assumes "MaxBitWidth < needleLength"
  shows "searchBitap haystack haystackLength needle needleLength
          = searchNative haystack haystackLength needle needleLength"
  using assms by (simp add: searchBitap_def searchNative_def split: option.splits)

lemma searchBitapString_delegates:
  assumes "strlen nd = Inr needleLength" and "MaxBitWidth < needleLength"
  shows "searchBitapString haystack (Some nd) = searchSimpleString haystack (Some nd)"
  using assms by (simp add: searchBitapString_def searchSimpleString_def split: option.splits)

section \<open>Knuth-Morris-Pratt: the accesses to the skip table\<close>

text \<open>
  The cells \<open>0 .. i\<close> of the table are written, and each entry is at least \<open>-1\<close> and
  below its index: what the preprocessing has established when it starts round \<open>i\<close>.
\<close>

definition kmp_filled :: "table \<Rightarrow> nat \<Rightarrow> bool" where
  "kmp_filled skip i \<longleftrightarrow> (\<forall>k\<le>i. \<exists>s. skip ! k = Some s \<and> - 1 \<le> s \<and> s < int k)"

lemma kmp_fallback_returns:
  assumes "i < length nd" and "Suc i < length skip" and "kmp_filled skip i"
    and "skip ! Suc i = Some v" and "0 \<le> v" and "v \<le> int i"
  shows "\<exists>skip' v'. kmp_fallback nd skip (int i) = Some (Inr skip')
          \<and> length skip' = length skip \<and> kmp_filled skip' i
          \<and> skip' ! Suc i = Some v' \<and> 0 \<le> v' \<and> v' \<le> int i"
  using assms
proof (induction "nat v" arbitrary: v skip rule: less_induct)
  case less
  have rdt: "tbl_read skip (int i + 1) = Inr v"
    using less.prems(2,4) by (simp add: tbl_read_def nat_add_distrib)
  show ?case
  proof (cases "v > 0")
    case False
    with rdt less.prems show ?thesis by (subst kmp_fallback.simps) auto
  next
    case True
    from less.prems(1) have ra: "rd_int nd (int i) = Inr (nd ! i)"
      by (simp add: rd_int_def rd_def)
    from True less.prems(1,6) have rb: "rd_int nd (v - 1) = Inr (nd ! nat (v - 1))"
      by (simp add: rd_int_def rd_def)
    show ?thesis
    proof (cases "nd ! i = nd ! nat (v - 1)")
      case same: True
      with True rdt ra rb less.prems show ?thesis by (subst kmp_fallback.simps) auto
    next
      case diff: False
      from True less.prems(6) have k: "nat (v - 1) \<le> i" by simp
      with less.prems(3) obtain w where w: "skip ! nat (v - 1) = Some w" "- 1 \<le> w"
          "w < int (nat (v - 1))"
        unfolding kmp_filled_def by blast
      from True k less.prems(2) have rdw: "tbl_read skip (v - 1) = Inr w"
        using w(1) by (simp add: tbl_read_def)
      let ?skip = "skip[Suc i := Some (w + 1)]"
      from less.prems(2) have wr: "tbl_write skip (int i + 1) (w + 1) = Inr ?skip"
        by (simp add: tbl_write_def nat_add_distrib)
      have filled: "kmp_filled ?skip i"
        using less.prems(3) unfolding kmp_filled_def by simp
      from w True have w1: "nat (w + 1) < nat v" "0 \<le> w + 1" "w + 1 \<le> int i"
        using less.prems(6) by simp_all
      have "\<exists>skip' v'. kmp_fallback nd ?skip (int i) = Some (Inr skip')
          \<and> length skip' = length ?skip \<and> kmp_filled skip' i
          \<and> skip' ! Suc i = Some v' \<and> 0 \<le> v' \<and> v' \<le> int i"
        using less.prems(1,2) filled w1(2,3)
        by (intro less.hyps [OF w1(1)]) simp_all
      with True rdt ra rb diff rdw wr show ?thesis
        by (subst kmp_fallback.simps) simp
    qed
  qed
qed

text \<open>A round whose cell \<open>i + 1\<close> lies inside the table completes and fills that cell.\<close>

lemma kmp_round_returns:
  assumes "i < length nd" and "Suc i < length skip" and "kmp_filled skip i"
  shows "\<exists>skip'. kmp_round nd skip (int i) = Some (Inr skip')
          \<and> length skip' = length skip \<and> kmp_filled skip' (Suc i)"
proof -
  from assms(3) obtain s where s: "skip ! i = Some s" "- 1 \<le> s" "s < int i"
    unfolding kmp_filled_def by blast
  from assms(2) s(1) have rdt: "tbl_read skip (int i) = Inr s" by (simp add: tbl_read_def)
  let ?skip = "skip[Suc i := Some (s + 1)]"
  from assms(2) have wr: "tbl_write skip (int i + 1) (s + 1) = Inr ?skip"
    by (simp add: tbl_write_def nat_add_distrib)
  have filled: "kmp_filled ?skip i"
    using assms(3) unfolding kmp_filled_def by simp
  from assms(2) have "?skip ! Suc i = Some (s + 1)" by simp
  from kmp_fallback_returns [OF assms(1) _ filled this] assms(2) s(2,3)
  obtain skip' v' where r: "kmp_fallback nd ?skip (int i) = Some (Inr skip')"
      "length skip' = length ?skip" "kmp_filled skip' i"
      "skip' ! Suc i = Some v'" "0 \<le> v'" "v' \<le> int i"
    by auto
  have "kmp_filled skip' (Suc i)"
    unfolding kmp_filled_def
  proof (intro allI impI)
    fix k assume "k \<le> Suc i"
    show "\<exists>s. skip' ! k = Some s \<and> - 1 \<le> s \<and> s < int k"
    proof (cases "k = Suc i")
      case True
      with r(4,5,6) show ?thesis by simp
    next
      case False
      with \<open>k \<le> Suc i\<close> have "k \<le> i" by simp
      with r(3) show ?thesis unfolding kmp_filled_def by blast
    qed
  qed
  with rdt wr r(1,2) show ?thesis by (simp add: kmp_round_def)
qed

text \<open>A round whose cell \<open>i + 1\<close> lies behind the last cell of the table writes there.\<close>

lemma kmp_round_overflows:
  assumes "i < length skip" and "length skip \<le> Suc i" and "kmp_filled skip i"
  shows "kmp_round nd skip (int i) = Some (Inl OutOfBounds)"
proof -
  from assms(3) obtain s where s: "skip ! i = Some s"
    unfolding kmp_filled_def by blast
  from assms(1) s have "tbl_read skip (int i) = Inr s" by (simp add: tbl_read_def)
  moreover from assms(2) have "tbl_write skip (int i + 1) (s + 1) = Inl OutOfBounds"
    by (simp add: tbl_write_def nat_add_distrib)
  ultimately show ?thesis by (simp add: kmp_round_def)
qed

lemma kmp_prepare_returns:
  assumes "needleLength \<le> length nd" and "needleLength < cap"
  shows "i \<le> needleLength \<Longrightarrow> kmp_filled skip i \<Longrightarrow> length skip = cap
    \<Longrightarrow> \<exists>skip'. kmp_prepare nd needleLength i skip = Some (Inr skip')
          \<and> length skip' = cap \<and> kmp_filled skip' needleLength"
proof (induction "needleLength - i" arbitrary: i skip)
  case 0
  then have "i = needleLength" by simp
  with 0 show ?case by (subst kmp_prepare.simps) simp
next
  case (Suc n)
  then have lt: "i < needleLength" by simp
  with assms Suc.prems have "i < length nd" "Suc i < length skip" by simp_all
  from kmp_round_returns [OF this Suc.prems(2)]
  obtain skip' where r: "kmp_round nd skip (int i) = Some (Inr skip')"
      "length skip' = length skip" "kmp_filled skip' (Suc i)"
    by blast
  from Suc.hyps(2) lt have "n = needleLength - Suc i" by simp
  from Suc.hyps(1) [OF this _ r(3)] lt r(2) Suc.prems(3)
  have "\<exists>skip''. kmp_prepare nd needleLength (Suc i) skip' = Some (Inr skip'')
          \<and> length skip'' = cap \<and> kmp_filled skip'' needleLength"
    by simp
  with lt r(1) show ?case by (subst kmp_prepare.simps) simp
qed

lemma kmp_prepare_overflows:
  assumes "needleLength \<le> length nd" and "length skip \<le> needleLength"
  shows "i < length skip \<Longrightarrow> kmp_filled skip i
    \<Longrightarrow> kmp_prepare nd needleLength i skip = Some (Inl OutOfBounds)"
  using assms(2)
proof (induction "length skip - i" arbitrary: i skip)
  case 0
  then show ?case by simp
next
  case (Suc n)
  from Suc.prems have lt: "i < needleLength" by simp
  show ?case
  proof (cases "Suc i < length skip")
    case False
    with Suc.prems have "kmp_round nd skip (int i) = Some (Inl OutOfBounds)"
      by (intro kmp_round_overflows) simp_all
    with lt show ?thesis by (subst kmp_prepare.simps) simp
  next
    case True
    with assms(1) Suc.prems have "i < length nd" by simp
    from kmp_round_returns [OF this True Suc.prems(2)]
    obtain skip' where r: "kmp_round nd skip (int i) = Some (Inr skip')"
        "length skip' = length skip" "kmp_filled skip' (Suc i)"
      by blast
    from Suc.hyps(2) r(2) have "n = length skip' - Suc i" by simp
    from Suc.hyps(1) [OF this _ r(3)] True r(2) Suc.prems(3)
    have "kmp_prepare nd needleLength (Suc i) skip' = Some (Inl OutOfBounds)" by simp
    with lt r(1) show ?thesis by (subst kmp_prepare.simps) simp
  qed
qed

text \<open>
  The table a call starts from: \<^verbatim>\<open>skip[0] = -1\<close> in the array that \<open>kmp_alloc\<close> chose.
\<close>

lemma kmp_alloc_capacity:
  assumes "0 < needleLength" and "needleLength < 2 ^ 62"
  shows "kmp_alloc True needleLength =
    Some (replicate (if needleLength > MaxLocalMemory then needleLength else MaxLocalMemory) None)"
proof -
  from assms(2) have "needleLength * 4 < 2 ^ 64" by simp
  then have "(needleLength * 4) mod 2 ^ 64 div 4 = needleLength" by simp
  then show ?thesis by (simp add: kmp_alloc_def)
qed

lemma kmp_first_cell:
  assumes "0 < cap"
  shows "tbl_write (replicate cap None) 0 (- 1) = Inr ((replicate cap None)[0 := Some (- 1)])"
    and "kmp_filled ((replicate cap None)[0 := Some (- 1)]) 0"
  using assms by (simp_all add: tbl_write_def kmp_filled_def)

lemma searchKnuthMorrisPratt_overflows:
  assumes "needleLength \<le> haystackLength" and "needleLength \<le> length nd"
    and "MaxLocalMemory \<le> needleLength" and "needleLength < 2 ^ 62"
  shows "searchKnuthMorrisPratt True (Some hs) haystackLength (Some nd) needleLength
          = Some (Inl OutOfBounds)"
proof -
  let ?cap = "if needleLength > MaxLocalMemory then needleLength else MaxLocalMemory"
  let ?skip = "(replicate ?cap None)[0 := Some (- 1)]"
  from assms(3) have pos: "0 < needleLength" "0 < ?cap" by (simp_all add: MaxLocalMemory_def)
  from assms(3) have cap: "length ?skip \<le> needleLength" by simp
  have "kmp_prepare nd needleLength 0 ?skip = Some (Inl OutOfBounds)"
    using pos(2) by (intro kmp_prepare_overflows [OF assms(2) cap] kmp_first_cell(2)) simp_all
  with assms(1) pos(1) kmp_alloc_capacity [OF pos(1) assms(4)] kmp_first_cell(1) [OF pos(2)]
  show ?thesis by (simp add: searchKnuthMorrisPratt_def)
qed

lemma kmp_preprocessing_in_capacity:
  assumes "0 < needleLength" and "needleLength \<le> length nd" and "needleLength < MaxLocalMemory"
  shows "\<exists>skip0 skip. kmp_alloc malloc_ok needleLength = Some skip0
          \<and> length skip0 = MaxLocalMemory
          \<and> kmp_prepare nd needleLength 0 (skip0[0 := Some (- 1)]) = Some (Inr skip)
          \<and> length skip = MaxLocalMemory \<and> kmp_filled skip needleLength"
proof -
  let ?skip = "(replicate MaxLocalMemory None)[0 := Some (- 1)]"
  from assms(3) have al: "kmp_alloc malloc_ok needleLength = Some (replicate MaxLocalMemory None)"
    by (simp add: kmp_alloc_def)
  have "0 < MaxLocalMemory" by (simp add: MaxLocalMemory_def)
  from kmp_first_cell(2) [OF this]
    kmp_prepare_returns [OF assms(2,3), of 0 ?skip]
  obtain skip where "kmp_prepare nd needleLength 0 ?skip = Some (Inr skip)"
      "length skip = MaxLocalMemory" "kmp_filled skip needleLength"
    by auto
  with al show ?thesis by simp
qed

section \<open>The naive and the native search return the first occurrence\<close>

text \<open>
  \<^verbatim>\<open>haystackLength -= needleLength - 1\<close> leaves the number of windows, also for the empty
  needle, where \<^verbatim>\<open>needleLength - 1\<close> wraps around.
\<close>

lemma size_sub_window:
  assumes "nl \<le> hl" and "hl + 1 < 2 ^ 64"
  shows "size_sub hl (size_sub nl 1) = hl + 1 - nl"
proof (cases "nl = 0")
  case True
  have "size_sub 0 1 = 2 ^ 64 - 1" by (simp add: size_sub_def)
  moreover have "hl + 2 ^ 64 - (2 ^ 64 - 1) = hl + 1" by simp
  ultimately show ?thesis using True assms(2) by (simp add: size_sub_def)
next
  case False
  with assms have "size_sub nl 1 = nl - 1" by (intro size_sub_eq) simp_all
  moreover from False assms have "size_sub hl (nl - 1) = hl - (nl - 1)"
    by (intro size_sub_eq) simp_all
  ultimately show ?thesis using False assms(1) by simp
qed

lemma simple_compare_match:
  assumes "p + nl \<le> length hs" and "nl \<le> length nd"
  shows "i \<le> nl \<Longrightarrow> match_at hs p nd i
    \<Longrightarrow> \<exists>k. simple_compare hs p nd nl i = Inr k \<and> (k = nl \<longleftrightarrow> match_at hs p nd nl)"
proof (induction "nl - i" arbitrary: i)
  case 0
  then have "i = nl" by simp
  with 0 show ?case by (subst simple_compare.simps) simp
next
  case (Suc n)
  then have lt: "i < nl" by simp
  with assms have rd: "rd hs (p + i) = Inr (hs ! (p + i))" "rd nd i = Inr (nd ! i)"
    by (simp_all add: rd_def)
  show ?case
  proof (cases "hs ! (p + i) = nd ! i")
    case False
    with lt have "\<not> match_at hs p nd nl" by (auto simp: match_at_def)
    with lt rd False show ?thesis by (subst simple_compare.simps) auto
  next
    case True
    with Suc.prems(2) have "match_at hs p nd (Suc i)" by (simp add: match_at_Suc)
    moreover from Suc.hyps(2) lt have "n = nl - Suc i" by simp
    ultimately have "\<exists>k. simple_compare hs p nd nl (Suc i) = Inr k
        \<and> (k = nl \<longleftrightarrow> match_at hs p nd nl)"
      using lt by (intro Suc.hyps(1)) simp_all
    with lt rd True show ?thesis by (subst simple_compare.simps) simp
  qed
qed

lemma simple_loop_first_occurrence:
  assumes hl: "hl \<le> length hs" and nl: "nl \<le> length nd" "nl \<le> hl"
  shows "p \<le> hl + 1 - nl \<Longrightarrow> (\<And>q. q < p \<Longrightarrow> \<not> match_at hs q nd nl)
    \<Longrightarrow> simple_loop hs p (hl + 1 - nl) nd nl = Inr (first_occurrence (take hl hs) (take nl nd))"
proof (induction "hl + 1 - nl - p" arbitrary: p)
  case 0
  then have p: "p = hl + 1 - nl" by simp
  have "\<not> occurs_at (take hl hs) (take nl nd) q" for q
  proof (cases "q < p")
    case True
    with "0.prems"(2) show ?thesis by (simp add: occurs_at_take [OF hl nl(1)])
  next
    case False
    with p nl(2) have "\<not> q + nl \<le> hl" by arith
    then show ?thesis by (simp add: occurs_at_take [OF hl nl(1)])
  qed
  then have "first_occurrence (take hl hs) (take nl nd) = None" by (rule first_occurrence_NoneI)
  with p show ?case by (subst simple_loop.simps) simp
next
  case (Suc n)
  then have lt: "p < hl + 1 - nl" by simp
  with hl nl have inb: "p + nl \<le> length hs" by simp
  have "match_at hs p nd 0" by (simp add: match_at_def)
  from simple_compare_match [OF inb nl(1) _ this]
  obtain k where k: "simple_compare hs p nd nl 0 = Inr k" "k = nl \<longleftrightarrow> match_at hs p nd nl"
    by auto
  show ?case
  proof (cases "match_at hs p nd nl")
    case True
    with lt nl(2) have "occurs_at (take hl hs) (take nl nd) p"
      by (simp add: occurs_at_take [OF hl nl(1)])
    moreover have "\<not> occurs_at (take hl hs) (take nl nd) q" if "q < p" for q
      using Suc.prems(2) [OF that] by (simp add: occurs_at_take [OF hl nl(1)])
    ultimately have "first_occurrence (take hl hs) (take nl nd) = Some p"
      by (rule first_occurrence_SomeI)
    with lt k True show ?thesis by (subst simple_loop.simps) simp
  next
    case False
    have none: "\<not> match_at hs q nd nl" if "q < p + 1" for q
    proof (cases "q = p")
      case True
      with False show ?thesis by simp
    next
      case ne: False
      with that have "q < p" by simp
      then show ?thesis by (rule Suc.prems(2))
    qed
    from Suc.hyps(2) have n: "n = hl + 1 - nl - (p + 1)" by simp
    from lt have "p + 1 \<le> hl + 1 - nl" by simp
    from Suc.hyps(1) [OF n this none]
    have "simple_loop hs (p + 1) (hl + 1 - nl) nd nl
        = Inr (first_occurrence (take hl hs) (take nl nd))" by simp
    with lt k False show ?thesis by (subst simple_loop.simps) simp
  qed
qed

lemma searchSimple_first_occurrence:
  assumes "haystackLength \<le> length hs" and "needleLength \<le> length nd"
    and "haystackLength + 1 < 2 ^ 64"
  shows "searchSimple (Some hs) haystackLength (Some nd) needleLength
          = Inr (first_occurrence (take haystackLength hs) (take needleLength nd))"
proof (cases "haystackLength < needleLength")
  case True
  with assms have "\<not> occurs_at (take haystackLength hs) (take needleLength nd) q" for q
    by (simp add: occurs_at_take)
  then have "first_occurrence (take haystackLength hs) (take needleLength nd) = None"
    by (rule first_occurrence_NoneI)
  with True show ?thesis by (simp add: searchSimple_def)
next
  case False
  then have le: "needleLength \<le> haystackLength" by simp
  have w: "size_sub haystackLength (size_sub needleLength 1) = haystackLength + 1 - needleLength"
    using le assms(3) by (rule size_sub_window)
  have "simple_loop hs 0 (haystackLength + 1 - needleLength) nd needleLength
      = Inr (first_occurrence (take haystackLength hs) (take needleLength nd))"
    by (rule simple_loop_first_occurrence [OF assms(1,2) le]) simp_all
  with False show ?thesis unfolding searchSimple_def Let_def w by simp
qed

text \<open>
  \<^verbatim>\<open>searchNative\<close>: the first byte by \<^verbatim>\<open>memchr\<close>, then the last byte, then the bytes between
  them by \<^verbatim>\<open>memcmp\<close>.
\<close>

lemma memcmp_eq_match:
  assumes "q + nl \<le> length hs" and "nl \<le> length nd" and "2 \<le> nl"
  shows "memcmp_eq hs (q + 1) nd (0 + 1) (nl - 2)
          = Inr (\<forall>k. 1 \<le> k \<and> k < nl - 1 \<longrightarrow> hs ! (q + k) = nd ! k)"
proof -
  from assms have inb: "q + 1 + (nl - 2) \<le> length hs" "0 + 1 + (nl - 2) \<le> length nd"
    by simp_all
  have "take (nl - 2) (drop (q + 1) hs) = take (nl - 2) (drop (0 + 1) nd)
      \<longleftrightarrow> (\<forall>k. 1 \<le> k \<and> k < nl - 1 \<longrightarrow> hs ! (q + k) = nd ! k)"
  proof
    assume eq: "take (nl - 2) (drop (q + 1) hs) = take (nl - 2) (drop (0 + 1) nd)"
    show "\<forall>k. 1 \<le> k \<and> k < nl - 1 \<longrightarrow> hs ! (q + k) = nd ! k"
    proof (intro allI impI)
      fix k assume k: "1 \<le> k \<and> k < nl - 1"
      then have j: "k - 1 < nl - 2" by arith
      from eq have "take (nl - 2) (drop (q + 1) hs) ! (k - 1)
          = take (nl - 2) (drop (0 + 1) nd) ! (k - 1)" by simp
      with j inb k show "hs ! (q + k) = nd ! k" by simp
    qed
  next
    assume m: "\<forall>k. 1 \<le> k \<and> k < nl - 1 \<longrightarrow> hs ! (q + k) = nd ! k"
    show "take (nl - 2) (drop (q + 1) hs) = take (nl - 2) (drop (0 + 1) nd)"
    proof (rule nth_equalityI)
      from inb show "length (take (nl - 2) (drop (q + 1) hs))
          = length (take (nl - 2) (drop (0 + 1) nd))" by simp
    next
      fix j assume "j < length (take (nl - 2) (drop (q + 1) hs))"
      with inb have j: "j < nl - 2" by simp
      then have "1 \<le> j + 1 \<and> j + 1 < nl - 1" by arith
      with m have "hs ! (q + (j + 1)) = nd ! (j + 1)" by blast
      with j inb show "take (nl - 2) (drop (q + 1) hs) ! j
          = take (nl - 2) (drop (0 + 1) nd) ! j" by (simp add: add.assoc)
    qed
  qed
  with inb show ?thesis by (simp add: memcmp_eq_def)
qed

lemma match_at_first_last_middle:
  assumes "2 \<le> nl"
  shows "match_at hs q nd nl \<longleftrightarrow>
    hs ! q = nd ! 0 \<and> hs ! (q + (nl - 1)) = nd ! (nl - 1)
    \<and> (\<forall>k. 1 \<le> k \<and> k < nl - 1 \<longrightarrow> hs ! (q + k) = nd ! k)"
proof
  assume m: "match_at hs q nd nl"
  from assms have "0 < nl" "nl - 1 < nl" by simp_all
  with m have "hs ! (q + 0) = nd ! 0" "hs ! (q + (nl - 1)) = nd ! (nl - 1)"
    unfolding match_at_def by blast+
  moreover from m have "\<forall>k. 1 \<le> k \<and> k < nl - 1 \<longrightarrow> hs ! (q + k) = nd ! k"
    by (auto simp: match_at_def)
  ultimately show "hs ! q = nd ! 0 \<and> hs ! (q + (nl - 1)) = nd ! (nl - 1)
    \<and> (\<forall>k. 1 \<le> k \<and> k < nl - 1 \<longrightarrow> hs ! (q + k) = nd ! k)" by simp
next
  assume a: "hs ! q = nd ! 0 \<and> hs ! (q + (nl - 1)) = nd ! (nl - 1)
    \<and> (\<forall>k. 1 \<le> k \<and> k < nl - 1 \<longrightarrow> hs ! (q + k) = nd ! k)"
  show "match_at hs q nd nl"
    unfolding match_at_def
  proof (intro allI impI)
    fix k assume k: "k < nl"
    consider "k = 0" | "k = nl - 1" | "1 \<le> k \<and> k < nl - 1" using k by arith
    then show "hs ! (q + k) = nd ! k"
    proof cases
      case 1 with a show ?thesis by simp
    next
      case 2 with a show ?thesis by simp
    next
      case 3 with a show ?thesis by blast
    qed
  qed
qed

lemma match_at_first:
  assumes "match_at hs q nd nl" and "0 < nl"
  shows "hs ! q = nd ! 0"
proof -
  from assms have "hs ! (q + 0) = nd ! 0" unfolding match_at_def by blast
  then show ?thesis by simp
qed

lemma ptr_diff_gen:
  fixes e q M :: nat
  assumes "q \<le> e" and "e - q < M"
  shows "nat ((int e - int q) mod int M) = e - q"
proof -
  from assms(1) have "int e - int q = int (e - q)" by (simp only: of_nat_diff)
  then have "(int e - int q) mod int M = int ((e - q) mod M)" by (simp only: zmod_int)
  also from assms(2) have "\<dots> = int (e - q)" by (simp only: mod_less)
  finally show ?thesis by (simp only: nat_int)
qed

lemma ptr_diff_size:
  fixes e q :: nat
  assumes "q \<le> e" and "e - q < 2 ^ 64"
  shows "nat ((int e - int q) mod 2 ^ 64) = e - q"
proof -
  have "int (2 ^ 64) = 2 ^ 64" by (simp only: of_nat_power of_nat_numeral)
  with ptr_diff_gen [OF assms] show ?thesis by (simp only:)
qed

lemma native_loop_first_occurrence:
  assumes hl: "hl \<le> length hs" "hl < 2 ^ 64" and nl: "2 \<le> nl" "nl \<le> length nd" "nl \<le> hl"
  shows "p + len = hl + 1 - nl \<Longrightarrow> (\<And>q. q < p \<Longrightarrow> \<not> match_at hs q nd nl)
    \<Longrightarrow> native_loop hs p len (hl + 1 - nl) nd nl
          = Inr (first_occurrence (take hl hs) (take nl nd))"
proof (induction len arbitrary: p rule: less_induct)
  case (less len)
  let ?e = "hl + 1 - nl"
  note occ = occurs_at_take [OF hl(1) nl(2)]
  from nl have "0 < length nd" by linarith
  then have rd0: "rd nd 0 = Inr (nd ! 0)" by (simp add: rd_def)
  from nl hl have s1: "size_sub nl 1 = nl - 1" by (intro size_sub_eq) linarith+
  from nl hl have s2: "size_sub nl 2 = nl - 2" by (intro size_sub_eq) linarith+
  from less.prems(1) hl nl have "p + len \<le> length hs" by simp
  from memchr_in_bounds [OF this, of "nd ! 0"]
  obtain r where r: "memchr hs p (nd ! 0) len = Inr r" by blast
  show ?case
  proof (cases r)
    case None
    with r have nofirst: "\<forall>k. p \<le> k \<and> k < p + len \<longrightarrow> hs ! k \<noteq> nd ! 0"
      by (intro memchr_None) simp
    have "\<not> occurs_at (take hl hs) (take nl nd) q" for q
    proof (cases "q < p")
      case True
      with less.prems(2) show ?thesis by (simp add: occ)
    next
      case False
      show ?thesis
      proof
        assume "occurs_at (take hl hs) (take nl nd) q"
        then have q: "q + nl \<le> hl" "match_at hs q nd nl" by (simp_all add: occ)
        from nl have "0 < nl" by linarith
        with q(2) have "hs ! q = nd ! 0" by (rule match_at_first)
        moreover from q(1) nl less.prems(1) False have "p \<le> q \<and> q < p + len" by linarith
        ultimately show False using nofirst by blast
      qed
    qed
    then have "first_occurrence (take hl hs) (take nl nd) = None" by (rule first_occurrence_NoneI)
    with rd0 r None show ?thesis by (subst native_loop.simps) simp
  next
    case (Some q)
    with r have "memchr hs p (nd ! 0) len = Inr (Some q)" by simp
    from memchr_Some [OF this]
    have q: "p \<le> q" "q < p + len" "hs ! q = nd ! 0" "\<forall>k. p \<le> k \<and> k < q \<longrightarrow> hs ! k \<noteq> nd ! 0"
      by simp_all
    from q(2) less.prems(1) nl have qe: "q < ?e" "q + nl \<le> hl" by simp_all
    with hl nl have rdl: "rd hs (q + (nl - 1)) = Inr (hs ! (q + (nl - 1)))"
      "rd nd (nl - 1) = Inr (nd ! (nl - 1))"
      by (simp_all add: rd_def)
    from qe hl have inb: "q + nl \<le> length hs" by simp
    have below: "\<not> occurs_at (take hl hs) (take nl nd) q'" if "q' < q" for q'
    proof (cases "q' < p")
      case True
      with less.prems(2) show ?thesis by (simp add: occ)
    next
      case False
      with that q(4) have "hs ! q' \<noteq> nd ! 0" by simp
      moreover from nl have "0 < nl" by linarith
      ultimately show ?thesis using match_at_first [of hs q' nd nl] by (auto simp: occ)
    qed
    define hit where "hit =
      (if hs ! (q + (nl - 1)) = nd ! (nl - 1) then
         (if nl = 2 then Inr True else memcmp_eq hs (q + 1) nd (0 + 1) (nl - 2))
       else Inr False)"
    have hit: "hit = Inr (match_at hs q nd nl)"
    proof (cases "hs ! (q + (nl - 1)) = nd ! (nl - 1)")
      case False
      then show ?thesis
        by (simp add: hit_def match_at_first_last_middle [OF nl(1)])
    next
      case last: True
      show ?thesis
      proof (cases "nl = 2")
        case True
        have "match_at hs q nd nl"
          using last q(3) True by (subst match_at_first_last_middle [OF nl(1)]) auto
        with last True show ?thesis by (simp add: hit_def)
      next
        case False
        with last q(3) show ?thesis
          unfolding hit_def memcmp_eq_match [OF inb nl(2,1)]
          by (simp add: match_at_first_last_middle [OF nl(1)])
      qed
    qed
    have unfold: "native_loop hs p len ?e nd nl =
      (case hit of
         Inl e \<Rightarrow> Inl e
       | Inr h \<Rightarrow>
           if h then Inr (Some q)
           else
             let haystackLength' = nat ((int ?e - int q) mod 2 ^ 64)
             in if haystackLength' = 0 then Inr None
                else native_loop hs (q + 1) (size_sub haystackLength' 1) ?e nd nl)"
      unfolding hit_def
      by (subst native_loop.simps) (simp only: rd0 r Some s1 s2 rdl sum.case option.case)
    show ?thesis
    proof (cases "match_at hs q nd nl")
      case True
      with qe have "occurs_at (take hl hs) (take nl nd) q" by (simp add: occ)
      then have "first_occurrence (take hl hs) (take nl nd) = Some q"
        using below by (rule first_occurrence_SomeI)
      with True show ?thesis unfolding unfold hit by simp
    next
      case False
      from qe hl nl have "q \<le> ?e" "?e - q < 2 ^ 64" by arith+
      then have len': "nat ((int ?e - int q) mod 2 ^ 64) = ?e - q" by (rule ptr_diff_size)
      from qe have pos: "?e - q \<noteq> 0" by simp
      from qe hl nl have s: "size_sub (?e - q) 1 = ?e - q - 1"
        by (intro size_sub_eq) arith+
      from q(1) qe less.prems(1) have dec: "?e - q - 1 < len" by simp
      from qe have sum: "q + 1 + (?e - q - 1) = ?e" by simp
      have none: "\<not> match_at hs q' nd nl" if "q' < q + 1" for q'
      proof (cases "q' = q")
        case True
        with False show ?thesis by simp
      next
        case ne: False
        with that have lt: "q' < q" by simp
        show ?thesis
        proof (cases "q' < p")
          case True
          then show ?thesis by (rule less.prems(2))
        next
          case np: False
          with lt q(4) have "hs ! q' \<noteq> nd ! 0" by simp
          moreover from nl have "0 < nl" by linarith
          ultimately show ?thesis using match_at_first [of hs q' nd nl] by blast
        qed
      qed
      from less.IH [OF dec sum none]
      have "native_loop hs (q + 1) (?e - q - 1) ?e nd nl
          = Inr (first_occurrence (take hl hs) (take nl nd))" by simp
      with False pos show ?thesis unfolding unfold hit Let_def len' s by simp
    qed
  qed
qed

lemma searchNative_first_occurrence:
  assumes "haystackLength \<le> length hs" and "needleLength \<le> length nd"
    and "haystackLength < 2 ^ 64"
  shows "searchNative (Some hs) haystackLength (Some nd) needleLength
          = Inr (first_occurrence (take haystackLength hs) (take needleLength nd))"
proof -
  note occ = occurs_at_take [OF assms(1,2)]
  consider "haystackLength < needleLength" | "needleLength = 0"
    | "needleLength = 1" "needleLength \<le> haystackLength"
    | "2 \<le> needleLength" "needleLength \<le> haystackLength"
    by linarith
  then show ?thesis
  proof cases
    case 1
    then have "\<not> occurs_at (take haystackLength hs) (take needleLength nd) q" for q
      by (simp add: occ)
    then have "first_occurrence (take haystackLength hs) (take needleLength nd) = None"
      by (rule first_occurrence_NoneI)
    with 1 show ?thesis by (simp add: searchNative_def)
  next
    case 2
    have "occurs_at (take haystackLength hs) (take needleLength nd) 0"
      using 2 by (simp add: occurs_at_def)
    then have "first_occurrence (take haystackLength hs) (take needleLength nd) = Some 0"
      by (rule first_occurrence_SomeI) simp
    with 2 show ?thesis by (simp add: searchNative_def)
  next
    case 3
    with assms(2) have "0 < length nd" by linarith
    then have rd0: "rd nd 0 = Inr (nd ! 0)" by (simp add: rd_def)
    have one: "match_at hs q nd needleLength \<longleftrightarrow> hs ! q = nd ! 0" for q
      using 3(1) by (simp add: match_at_def)
    have win: "q + needleLength \<le> haystackLength \<longleftrightarrow> q < haystackLength" for q
      using 3(1) by linarith
    from assms(1) have "0 + haystackLength \<le> length hs" by simp
    from memchr_in_bounds [OF this, of "nd ! 0"]
    obtain r where r: "memchr hs 0 (nd ! 0) haystackLength = Inr r" by blast
    have "r = first_occurrence (take haystackLength hs) (take needleLength nd)"
    proof (cases r)
      case None
      with r have "\<forall>k. 0 \<le> k \<and> k < 0 + haystackLength \<longrightarrow> hs ! k \<noteq> nd ! 0"
        by (intro memchr_None) simp
      then have "\<not> occurs_at (take haystackLength hs) (take needleLength nd) q" for q
        by (simp add: occ one win)
      then have "first_occurrence (take haystackLength hs) (take needleLength nd) = None"
        by (rule first_occurrence_NoneI)
      with None show ?thesis by simp
    next
      case (Some q)
      with r have "memchr hs 0 (nd ! 0) haystackLength = Inr (Some q)" by simp
      from memchr_Some [OF this]
      have q: "q < 0 + haystackLength" "hs ! q = nd ! 0"
        "\<forall>k. 0 \<le> k \<and> k < q \<longrightarrow> hs ! k \<noteq> nd ! 0"
        by simp_all
      from q(1,2) have "occurs_at (take haystackLength hs) (take needleLength nd) q"
        by (simp add: occ one win)
      moreover have "\<not> occurs_at (take haystackLength hs) (take needleLength nd) q'"
        if "q' < q" for q'
        using that q(3) by (simp add: occ one win)
      ultimately have "first_occurrence (take haystackLength hs) (take needleLength nd) = Some q"
        by (rule first_occurrence_SomeI)
      with Some show ?thesis by simp
    qed
    with 3 rd0 r show ?thesis by (simp add: searchNative_def)
  next
    case 4
    from 4 assms(3) have s1: "size_sub needleLength 1 = needleLength - 1"
      by (intro size_sub_eq) linarith+
    from 4 assms(3) have "size_sub haystackLength (needleLength - 1)
        = haystackLength - (needleLength - 1)"
      by (intro size_sub_eq) linarith+
    moreover from 4 have "haystackLength - (needleLength - 1) = haystackLength + 1 - needleLength"
      by linarith
    ultimately have w: "size_sub haystackLength (size_sub needleLength 1)
        = haystackLength + 1 - needleLength"
      by (simp only: s1)
    have "native_loop hs 0 (haystackLength + 1 - needleLength)
            (haystackLength + 1 - needleLength) nd needleLength
        = Inr (first_occurrence (take haystackLength hs) (take needleLength nd))"
      by (rule native_loop_first_occurrence [OF assms(1,3) 4(1) assms(2) 4(2)]) simp_all
    moreover from 4 have "\<not> haystackLength < needleLength" "needleLength \<noteq> 0" "needleLength \<noteq> 1"
      by linarith+
    ultimately show ?thesis unfolding searchNative_def Let_def w by simp
  qed
qed

section \<open>The empty needle\<close>

text \<open>
  Every matcher but \<^verbatim>\<open>searchSimpleString\<close> returns the haystack pointer for the empty
  needle, whatever the haystack is; \<^verbatim>\<open>searchSimpleString\<close> does so when the haystack is
  not empty.
\<close>

lemma searchSimple_empty_needle:
  assumes "haystackLength + 1 < 2 ^ 64"
  shows "searchSimple (Some hs) haystackLength (Some nd) 0 = Inr (Some 0)"
proof -
  have w: "size_sub haystackLength (size_sub 0 1) = haystackLength + 1 - 0"
    using assms by (intro size_sub_window) simp
  have "simple_compare hs 0 nd 0 0 = Inr 0" by (subst simple_compare.simps) simp
  then have "simple_loop hs 0 (haystackLength + 1 - 0) nd 0 = Inr (Some 0)"
    by (subst simple_loop.simps) simp
  then show ?thesis unfolding searchSimple_def Let_def w by simp
qed

lemma length_based_empty_needle:
  "searchNative (Some hs) haystackLength (Some nd) 0 = Inr (Some 0)"
  "searchKnuthMorrisPratt malloc_ok (Some hs) haystackLength (Some nd) 0 = Some (Inr (Some 0))"
  "searchBoyerMooreHorspool (Some hs) haystackLength (Some nd) 0 = Some (Inr (Some 0))"
  "searchBitap (Some hs) haystackLength (Some nd) 0 = Inr (Some 0)"
  "searchRabinKarp (Some hs) haystackLength (Some nd) 0 = Inr (Some 0)"
  by (simp_all add: searchNative_def searchKnuthMorrisPratt_def searchBoyerMooreHorspool_def
      searchBitap_def searchRabinKarp_def)

lemma strlen_empty: "strlen (NUL # rest) = Inr 0"
  by (simp add: strlen_def strlen_from.simps rd_def)

lemma string_variants_empty_needle:
  "searchKnuthMorrisPrattString malloc_ok (Some hs) (Some (NUL # rest)) = Some (Inr (Some 0))"
  "searchBitapString (Some hs) (Some (NUL # rest)) = Inr (Some 0)"
  "searchRabinKarpString (Some hs) (Some (NUL # rest)) = Inr (Some 0)"
  "strlen hs = Inr n \<Longrightarrow>
     searchBoyerMooreHorspoolString (Some hs) (Some (NUL # rest)) = Some (Inr (Some 0))"
  by (simp_all add: searchKnuthMorrisPrattString_def searchBitapString_def
      searchRabinKarpString_def searchBoyerMooreHorspoolString_def
      searchBoyerMooreHorspool_def strlen_empty rd_def)

lemma searchSimpleString_empty_needle:
  assumes "b \<noteq> NUL"
  shows "searchSimpleString (Some (b # hs)) (Some (NUL # rest)) = Inr (Some 0)"
proof -
  have "simpleString_compare (b # hs) 0 (NUL # rest) 0 = Inr 0"
    by (subst simpleString_compare.simps) (simp add: rd_def)
  with assms have "simpleString_loop (b # hs) 0 (NUL # rest) = Inr (Some 0)"
    by (subst simpleString_loop.simps) (simp add: rd_def)
  then show ?thesis by (simp add: searchSimpleString_def)
qed

section \<open>The line-scan driver of \<^verbatim>\<open>mygrep.c\<close>\<close>

datatype Algorithm =
    UseBest
  | UseStrStr
  | UseMemMem
  | UseSimple
  | UseNative
  | UseKnuthMorrisPratt
  | UseBoyerMooreHorspool
  | UseBitap
  | UseRabinKarp

datatype Display = ShowLines | ShowCountOnly

text \<open>
  What the program writes to its standard output, call by call: \<open>Fwrite\<close> the bytes of an
  \<^verbatim>\<open>fwrite\<close>, \<open>Putchar\<close> the byte of a \<^verbatim>\<open>putchar\<close>, \<open>Printf_d\<close> the number of a
  \<^verbatim>\<open>printf("%d\n", numHits)\<close> and \<open>Printf_s\<close> the text of a message line.
\<close>

datatype written = Fwrite "byte list" | Putchar byte | Printf_d int | Printf_s string

definition newline :: byte where
  "newline = CHR 0x0A"

text \<open>
  The two matchers of the C library the driver can select, by their contract:
  \<^verbatim>\<open>memmem\<close> returns the first occurrence of the needle's \<^verbatim>\<open>needleLength\<close> bytes in the
  haystack's \<^verbatim>\<open>haystackLength\<close> bytes, \<^verbatim>\<open>strstr\<close> the first occurrence of one string
  in the other, both strings ending at their first NUL.
\<close>

definition memmem :: "byte list \<Rightarrow> nat \<Rightarrow> byte list \<Rightarrow> nat \<Rightarrow> found" where
  "memmem hs haystackLength nd needleLength =
     (if haystackLength \<le> length hs \<and> needleLength \<le> length nd
      then Inr (first_occurrence (take haystackLength hs) (take needleLength nd))
      else Inl OutOfBounds)"

definition strstr :: "byte list \<Rightarrow> byte list \<Rightarrow> found" where
  "strstr hs nd =
     (case strlen hs of
        Inl e \<Rightarrow> Inl e
      | Inr haystackLength \<Rightarrow>
          (case strlen nd of
             Inl e \<Rightarrow> Inl e
           | Inr needleLength \<Rightarrow>
               Inr (first_occurrence (take haystackLength hs) (take needleLength nd))))"

text \<open>
  The workaround after \<^verbatim>\<open>memmem\<close>: \<^verbatim>\<open>int diff = current - before; current = before + diff;\<close>
  The difference is cut to an \<^verbatim>\<open>int\<close>.
\<close>

definition memmem_workaround :: "found \<Rightarrow> found" where
  "memmem_workaround r =
     (case r of
        Inl e \<Rightarrow> Inl e
      | Inr None \<Rightarrow> Inr None
      | Inr (Some k) \<Rightarrow>
          let diff = sint (word_of_nat k :: 32 word)
          in if diff < 0 then Inl BadPointer else Inr (Some (nat diff)))"

text \<open>
  The \<^verbatim>\<open>switch (algorithm)\<close>. The haystack argument \<^verbatim>\<open>current\<close> is a pointer into the
  loaded file: the bytes of \<open>data\<close> from offset \<open>current\<close> on. The result is an offset
  from \<^verbatim>\<open>current\<close>; the outer \<open>None\<close> is a matcher that does not return, and
  \<open>Inr (Inl ())\<close> is the \<^verbatim>\<open>default\<close> branch ("Unknown search algorithm").
\<close>

definition run_search ::
  "bool \<Rightarrow> Algorithm \<Rightarrow> byte list \<Rightarrow> nat \<Rightarrow> nat \<Rightarrow> byte list \<Rightarrow> nat
    \<Rightarrow> (error + (unit + nat option)) option" where
  "run_search malloc_ok algorithm data current bytesLeft needle needleLength =
     (let haystack = drop current data;
          known = (\<lambda>r. case r of Inl e \<Rightarrow> Inl e | Inr f \<Rightarrow> Inr (Inr f))
      in case algorithm of
           UseMemMem \<Rightarrow>
             Some (known (memmem_workaround (memmem haystack bytesLeft needle needleLength)))
         | UseStrStr \<Rightarrow> Some (known (strstr haystack needle))
         | UseSimple \<Rightarrow>
             Some (known (searchSimple (Some haystack) bytesLeft (Some needle) needleLength))
         | UseNative \<Rightarrow>
             Some (known (searchNative (Some haystack) bytesLeft (Some needle) needleLength))
         | UseKnuthMorrisPratt \<Rightarrow>
             map_option known
               (searchKnuthMorrisPratt malloc_ok (Some haystack) bytesLeft
                  (Some needle) needleLength)
         | UseBoyerMooreHorspool \<Rightarrow>
             map_option known
               (searchBoyerMooreHorspool (Some haystack) bytesLeft (Some needle) needleLength)
         | UseBitap \<Rightarrow>
             Some (known (searchBitap (Some haystack) bytesLeft (Some needle) needleLength))
         | UseRabinKarp \<Rightarrow>
             Some (known (searchRabinKarp (Some haystack) bytesLeft (Some needle) needleLength))
         | UseBest \<Rightarrow> Some (Inr (Inl ())))"

text \<open>\<^verbatim>\<open>while (right != haystackEnd && *right != '\n') right++;\<close>\<close>

function find_right :: "byte list \<Rightarrow> nat \<Rightarrow> nat \<Rightarrow> error + nat" where
  "find_right data right haystackEnd =
     (if right \<noteq> haystackEnd then
        (case rd data right of
           Inl e \<Rightarrow> Inl e
         | Inr b \<Rightarrow> if b \<noteq> newline then find_right data (right + 1) haystackEnd else Inr right)
      else Inr right)"
  by pat_completeness auto
termination
  by (relation "measure (\<lambda>(data, right, haystackEnd). length data - right)")
    (auto simp: rd_def split: if_splits)

declare find_right.simps [simp del]

text \<open>\<^verbatim>\<open>while (left != haystack && *left != '\n') left--;\<close> with \<^verbatim>\<open>haystack\<close> at offset 0.\<close>

function find_left :: "byte list \<Rightarrow> nat \<Rightarrow> error + nat" where
  "find_left data left =
     (if left \<noteq> 0 then
        (case rd data left of
           Inl e \<Rightarrow> Inl e
         | Inr b \<Rightarrow> if b \<noteq> newline then find_left data (left - 1) else Inr left)
      else Inr left)"
  by pat_completeness auto
termination
  by (relation "measure (\<lambda>(data, left). left)") auto

declare find_left.simps [simp del]

text \<open>
  \<^verbatim>\<open>fwrite(left, lineLength, 1, stdout)\<close> reads \<^verbatim>\<open>lineLength\<close> bytes from offset \<open>left\<close>.
\<close>

definition fwrite :: "byte list \<Rightarrow> nat \<Rightarrow> nat \<Rightarrow> error + written" where
  "fwrite data left lineLength =
     (if left + lineLength \<le> length data then Inr (Fwrite (take lineLength (drop left data)))
      else Inl OutOfBounds)"

text \<open>
  The variables the loop changes: the cursor \<^verbatim>\<open>current\<close> (an offset into the loaded
  file), the counter \<^verbatim>\<open>unsigned int numHits\<close> and the standard output so far.
\<close>

record scan =
  current :: nat
  numHits :: "32 word"
  stdout :: "written list"

text \<open>
  One round of \<^verbatim>\<open>for (;;)\<close>: \<open>Next\<close> is the end of the body or its \<^verbatim>\<open>continue\<close>,
  \<open>Break\<close> the \<^verbatim>\<open>break\<close> after a matcher returned \<^verbatim>\<open>NULL\<close>, \<open>Return\<close> the \<^verbatim>\<open>return -6\<close>
  of the \<^verbatim>\<open>default\<close> branch.
\<close>

datatype round = Next scan | Break scan | Return scan int

definition scan_round ::
  "bool \<Rightarrow> Algorithm \<Rightarrow> Display \<Rightarrow> byte list \<Rightarrow> nat \<Rightarrow> byte list \<Rightarrow> nat \<Rightarrow> scan
    \<Rightarrow> (error + round) option" where
  "scan_round malloc_ok algorithm display data haystackLength needle needleLength s =
     (let bytesDone = current s - 0;
          bytesLeft = size_sub haystackLength bytesDone;
          haystackEnd = 0 + haystackLength
      in case run_search malloc_ok algorithm data (current s) bytesLeft needle needleLength of
           None \<Rightarrow> None
         | Some (Inl e) \<Rightarrow> Some (Inl e)
         | Some (Inr (Inl _)) \<Rightarrow>
             Some (Inr (Return
               (s\<lparr>stdout := stdout s @ [Printf_s ''Unknown search algorithm'']\<rparr>)
               (- 6)))
         | Some (Inr (Inr None)) \<Rightarrow> Some (Inr (Break s))
         | Some (Inr (Inr (Some k))) \<Rightarrow>
             let hit = current s + k;
                 hits = numHits s + 1
             in (case find_right data hit haystackEnd of
                   Inl e \<Rightarrow> Some (Inl e)
                 | Inr right \<Rightarrow>
                     if display = ShowCountOnly
                     then Some (Inr (Next (s\<lparr>current := right, numHits := hits\<rparr>)))
                     else
                       (case find_left data hit of
                          Inl e \<Rightarrow> Some (Inl e)
                        | Inr left1 \<Rightarrow>
                            (case rd data left1 of
                               Inl e \<Rightarrow> Some (Inl e)
                             | Inr b \<Rightarrow>
                                 let left = (if b = newline \<and> left1 \<noteq> haystackEnd
                                             then left1 + 1 else left1);
                                     lineLength = nat ((int right - int left) mod 2 ^ 64)
                                 in (case fwrite data left lineLength of
                                       Inl e \<Rightarrow> Some (Inl e)
                                     | Inr line \<Rightarrow>
                                         Some (Inr (Next
                                           (s\<lparr>current := right, numHits := hits,
                                              stdout := stdout s @ [line, Putchar newline]\<rparr>))))))))"

text \<open>
  The loop \<^verbatim>\<open>for (;;)\<close>. Nothing in its body bounds the number of rounds, so it is a
  partial function: \<open>None\<close> is a run that does not end.
\<close>

partial_function (option) scan_loop ::
  "bool \<Rightarrow> Algorithm \<Rightarrow> Display \<Rightarrow> byte list \<Rightarrow> nat \<Rightarrow> byte list \<Rightarrow> nat \<Rightarrow> scan
    \<Rightarrow> (error + scan \<times> int option) option" where
  "scan_loop malloc_ok algorithm display data haystackLength needle needleLength s =
     (case scan_round malloc_ok algorithm display data haystackLength needle needleLength s of
        None \<Rightarrow> None
      | Some (Inl e) \<Rightarrow> Some (Inl e)
      | Some (Inr (Next s')) \<Rightarrow>
          scan_loop malloc_ok algorithm display data haystackLength needle needleLength s'
      | Some (Inr (Break s')) \<Rightarrow> Some (Inr (s', None))
      | Some (Inr (Return s' code)) \<Rightarrow> Some (Inr (s', Some code)))"

text \<open>The state after a given number of rounds, for runs that are observed while they last.\<close>

fun scan_rounds ::
  "nat \<Rightarrow> bool \<Rightarrow> Algorithm \<Rightarrow> Display \<Rightarrow> byte list \<Rightarrow> nat \<Rightarrow> byte list \<Rightarrow> nat \<Rightarrow> scan
    \<Rightarrow> (error + round) option" where
  "scan_rounds 0 malloc_ok algorithm display data haystackLength needle needleLength s =
     Some (Inr (Next s))"
| "scan_rounds (Suc n) malloc_ok algorithm display data haystackLength needle needleLength s =
     (case scan_round malloc_ok algorithm display data haystackLength needle needleLength s of
        Some (Inr (Next s')) \<Rightarrow>
          scan_rounds n malloc_ok algorithm display data haystackLength needle needleLength s'
      | r \<Rightarrow> r)"

text \<open>The choice of \<^verbatim>\<open>UseBest\<close>, made once before the loop.\<close>

definition choose_algorithm :: "Algorithm \<Rightarrow> nat \<Rightarrow> Algorithm" where
  "choose_algorithm algorithm needleLength =
     (if algorithm = UseBest
      then (if needleLength \<le> 16 then UseNative else UseBoyerMooreHorspool)
      else algorithm)"

text \<open>
  The buffer \<^verbatim>\<open>data\<close> after the file was read: its bytes, then the padding
  \<^verbatim>\<open>data[filesize] = '\n'; data[filesize + 1] = 0;\<close>
\<close>

definition load :: "byte list \<Rightarrow> byte list" where
  "load file = file @ [newline, NUL]"

definition scan_start :: scan where
  "scan_start = \<lparr>current = 0, numHits = 0, stdout = []\<rparr>"

text \<open>
  \<^verbatim>\<open>main\<close> from the test for the empty file on, for the options already parsed and the
  file already read: \<open>needle\<close> is the string \<^verbatim>\<open>argv[1]\<close> with its terminator, \<open>file\<close> the
  bytes of the file. The result is the standard output and the exit code.
\<close>

definition mygrep ::
  "bool \<Rightarrow> Algorithm \<Rightarrow> Display \<Rightarrow> byte list \<Rightarrow> byte list \<Rightarrow> (error + written list \<times> int) option" where
  "mygrep malloc_ok algorithm display needle file =
     (let filesize = length file
      in if filesize = 0 then Some (Inr ([Printf_s ''Empty file''], - 4))
         else
           (case strlen needle of
              Inl e \<Rightarrow> Some (Inl e)
            | Inr needleLength \<Rightarrow>
                (case scan_loop malloc_ok (choose_algorithm algorithm needleLength) display
                        (load file) filesize needle needleLength scan_start of
                   None \<Rightarrow> None
                 | Some (Inl e) \<Rightarrow> Some (Inl e)
                 | Some (Inr (s, Some code)) \<Rightarrow> Some (Inr (stdout s, code))
                 | Some (Inr (s, None)) \<Rightarrow>
                     Some (Inr
                       (if display = ShowCountOnly
                        then stdout s @ [Printf_d (sint (numHits s))]
                        else stdout s,
                        if numHits s = 0 then 1 else 0)))))"

text \<open>
  A run of the loop from which no round leaves: when every round taken in a state
  satisfying \<open>I\<close> ends in \<open>Next\<close> with \<open>I\<close> again, the loop does not return.
\<close>

lemma scan_loop_never_returns:
  assumes step: "\<And>s. I s \<Longrightarrow>
      \<exists>s'. scan_round m a d dat hl nd nl s = Some (Inr (Next s')) \<and> I s'"
    and start: "I s"
  shows "scan_loop m a d dat hl nd nl s = None"
proof (rule ccontr)
  assume "scan_loop m a d dat hl nd nl s \<noteq> None"
  then obtain y where y: "scan_loop m a d dat hl nd nl s = Some y" by auto
  have "(m', a', d', dat', hl', nd', nl') = (m, a, d, dat, hl, nd, nl) \<longrightarrow> \<not> I s'"
    if "scan_loop m' a' d' dat' hl' nd' nl' s' = Some y'" for m' a' d' dat' hl' nd' nl' s' y'
  proof (rule scan_loop.raw_induct [where
        P = "\<lambda>m' a' d' dat' hl' nd' nl' s' y'.
               (m', a', d', dat', hl', nd', nl') = (m, a, d, dat, hl, nd, nl) \<longrightarrow> \<not> I s'",
        OF _ that], goal_cases)
    case (1 loop m' a' d' dat' hl' nd' nl' s' y')
    show ?case
    proof (intro impI notI)
      assume eq: "(m', a', d', dat', hl', nd', nl') = (m, a, d, dat, hl, nd, nl)" and "I s'"
      from step [OF \<open>I s'\<close>] obtain s'' where
        r: "scan_round m a d dat hl nd nl s' = Some (Inr (Next s''))" and i: "I s''"
        by blast
      from 1(2) eq r have "loop m a d dat hl nd nl s'' = Some y'" by simp
      from 1(1) [OF this] i show False by simp
    qed
  qed
  from this [OF y] start show False by simp
qed

lemmas native_eval = searchNative_def native_loop.simps

lemmas driver_eval = mygrep_def load_def scan_start_def choose_algorithm_def scan_loop.simps
  scan_round_def run_search_def find_right.simps find_left.simps fwrite_def newline_def
  memmem_def strstr_def memmem_workaround_def first_occurrence_def occurs_at_def upt_rec

text \<open>
  The empty needle \<^verbatim>\<open>""\<close> on the one-byte file \<open>a\<close>, with \<^verbatim>\<open>searchNative\<close>: the first round
  reports the line and moves the cursor to the end of the file; every later round finds
  the empty needle at the cursor again and leaves the cursor where it is.
\<close>

lemma empty_needle_first_round:
  "scan_round m UseNative display (load ''a'') 1 [NUL] 0 scan_start =
     Some (Inr (Next \<lparr>current = 1, numHits = 1,
       stdout = (if display = ShowCountOnly then [] else [Fwrite ''a'', Putchar newline])\<rparr>))"
  by (cases display) (simp_all add: driver_eval rd_def NUL_def size_sub_def Let_def native_eval)

lemma empty_needle_later_round:
  "scan_round m UseNative display (load ''a'') 1 [NUL] 0 \<lparr>current = 1, numHits = n, stdout = out\<rparr> =
     Some (Inr (Next \<lparr>current = 1, numHits = n + 1,
       stdout = (if display = ShowCountOnly then out else out @ [Fwrite [], Putchar newline])\<rparr>))"
  by (cases display) (simp_all add: driver_eval rd_def NUL_def size_sub_def Let_def native_eval)

lemma empty_needle_loop_diverges:
  "scan_loop m UseNative display (load ''a'') 1 [NUL] 0 \<lparr>current = 1, numHits = n, stdout = out\<rparr>
    = None"
proof (rule scan_loop_never_returns [where I = "\<lambda>s. current s = 1"])
  fix s :: scan
  assume c: "current s = 1"
  then have s: "s = \<lparr>current = 1, numHits = numHits s, stdout = stdout s\<rparr>" by simp
  have "\<exists>s'. scan_round m UseNative display (load ''a'') 1 [NUL] 0
          \<lparr>current = 1, numHits = numHits s, stdout = stdout s\<rparr> = Some (Inr (Next s'))
        \<and> current s' = 1"
    by (simp only: empty_needle_later_round) simp
  with s show "\<exists>s'. scan_round m UseNative display (load ''a'') 1 [NUL] 0 s = Some (Inr (Next s'))
      \<and> current s' = 1"
    by simp
qed simp

lemma empty_needle_mygrep_diverges: "mygrep m UseBest display [NUL] ''a'' = None"
proof -
  have len: "length ''a'' = 1" by simp
  have sl: "strlen [NUL] = Inr 0" by (simp add: strlen_def strlen_from.simps rd_def)
  have ch: "choose_algorithm UseBest 0 = UseNative" by (simp add: choose_algorithm_def)
  have "scan_loop m UseNative display (load ''a'') 1 [NUL] 0 scan_start
    = scan_loop m UseNative display (load ''a'') 1 [NUL] 0
        \<lparr>current = 1, numHits = 1,
          stdout = (if display = ShowCountOnly then [] else [Fwrite ''a'', Putchar newline])\<rparr>"
    by (subst scan_loop.simps, subst empty_needle_first_round)
      (simp only: option.case sum.case round.case)
  then have lp: "scan_loop m UseNative display (load ''a'') 1 [NUL] 0 scan_start = None"
    by (simp only: empty_needle_loop_diverges)
  show ?thesis
    unfolding mygrep_def Let_def len sl ch sum.case lp option.case by simp
qed

section \<open>The driver on a needle that is not empty and does not start with a newline\<close>

text \<open>
  With one of the matchers shown above to return the first occurrence, the loop ends and
  reports each line in which an occurrence starts, once and in the order of the file.
\<close>

text \<open>The end of the line that holds offset \<open>q\<close>: the next newline, or the end of the file.\<close>

definition eol :: "byte list \<Rightarrow> nat \<Rightarrow> nat" where
  "eol file q = q + length (takeWhile (\<lambda>b. b \<noteq> newline) (drop q file))"

text \<open>The start of that line: the offset behind the last newline before \<open>q\<close>, or 0.\<close>

fun sol :: "byte list \<Rightarrow> nat \<Rightarrow> nat" where
  "sol file 0 = 0"
| "sol file (Suc q) = (if file ! q = newline then Suc q else sol file q)"

lemma eol_props:
  assumes "q \<le> length file"
  shows "q \<le> eol file q" and "eol file q \<le> length file"
    and "eol file q = length file \<or> file ! eol file q = newline"
    and "\<And>i. q \<le> i \<Longrightarrow> i < eol file q \<Longrightarrow> file ! i \<noteq> newline"
proof -
  let ?t = "takeWhile (\<lambda>b. b \<noteq> newline) (drop q file)"
  show "q \<le> eol file q" by (simp add: eol_def)
  have le: "length ?t \<le> length (drop q file)" by (rule length_takeWhile_le)
  with assms show le': "eol file q \<le> length file" by (simp add: eol_def)
  show "eol file q = length file \<or> file ! eol file q = newline"
  proof (cases "length ?t < length (drop q file)")
    case True
    then have "\<not> (drop q file ! length ?t \<noteq> newline)" by (rule nth_length_takeWhile)
    with True assms show ?thesis by (simp add: eol_def)
  next
    case False
    with le have "length ?t = length (drop q file)" by simp
    with assms show ?thesis by (simp add: eol_def)
  qed
  fix i assume i: "q \<le> i" "i < eol file q"
  then have j: "i - q < length ?t" by (simp add: eol_def)
  then have "?t ! (i - q) \<noteq> newline" using nth_mem set_takeWhileD by fastforce
  moreover from j have "?t ! (i - q) = drop q file ! (i - q)" by (rule takeWhile_nth)
  ultimately show "file ! i \<noteq> newline" using i le' assms by simp
qed

lemma eol_unique:
  assumes "q \<le> r" and "r \<le> length file" and "r = length file \<or> file ! r = newline"
    and "\<And>i. q \<le> i \<Longrightarrow> i < r \<Longrightarrow> file ! i \<noteq> newline"
  shows "eol file q = r"
proof -
  from assms(1,2) have q: "q \<le> length file" by simp
  note e = eol_props [OF q]
  show ?thesis
  proof (rule ccontr)
    assume ne: "eol file q \<noteq> r"
    show False
    proof (cases "eol file q < r")
      case True
      with e(3) assms(2) have "file ! eol file q = newline" by auto
      with assms(4) [OF e(1) True] show False by simp
    next
      case False
      with ne have lt: "r < eol file q" by simp
      with e(2) assms(3) have "file ! r = newline" by auto
      with e(4) [OF assms(1) lt] show False by simp
    qed
  qed
qed

lemma sol_props:
  shows "sol file q \<le> q" and "sol file q = 0 \<or> file ! (sol file q - 1) = newline"
    and "\<And>i. sol file q \<le> i \<Longrightarrow> i < q \<Longrightarrow> file ! i \<noteq> newline"
proof -
  show "sol file q \<le> q" by (induction q) simp_all
  show "sol file q = 0 \<or> file ! (sol file q - 1) = newline" by (induction q) simp_all
  fix i show "sol file q \<le> i \<Longrightarrow> i < q \<Longrightarrow> file ! i \<noteq> newline"
  proof (induction q)
    case 0
    then show ?case by simp
  next
    case (Suc q)
    show ?case
    proof (cases "file ! q = newline")
      case True
      with Suc.prems show ?thesis by simp
    next
      case False
      with Suc.prems have s: "sol file q \<le> i" by simp
      show ?thesis
      proof (cases "i = q")
        case True
        with False show ?thesis by simp
      next
        case ne: False
        with Suc.prems have "i < q" by simp
        from Suc.IH [OF s this] show ?thesis .
      qed
    qed
  qed
qed

lemma load_nth: "i < length file \<Longrightarrow> load file ! i = file ! i"
  by (simp add: load_def nth_append)

lemma load_rd: "i < length file \<Longrightarrow> rd (load file) i = Inr (file ! i)"
  by (simp add: rd_def load_def nth_append)

lemma find_right_eol:
  assumes "q \<le> length file"
  shows "find_right (load file) q (length file) = Inr (eol file q)"
  using assms
proof (induction "length file - q" arbitrary: q)
  case 0
  then have q: "q = length file" by simp
  then have "eol file q = q" by (simp add: eol_def)
  with q show ?case by (subst find_right.simps) simp
next
  case (Suc n)
  then have lt: "q < length file" by simp
  note rd = load_rd [OF lt]
  show ?case
  proof (cases "file ! q = newline")
    case True
    with lt have "eol file q = q" by (intro eol_unique) simp_all
    with lt rd True show ?thesis by (subst find_right.simps) simp
  next
    case False
    from lt have q1: "q + 1 \<le> length file" by simp
    note e = eol_props [OF q1]
    have "eol file q = eol file (q + 1)"
    proof (rule eol_unique)
      show "q \<le> eol file (q + 1)" using e(1) by simp
      show "eol file (q + 1) \<le> length file" by (rule e(2))
      show "eol file (q + 1) = length file \<or> file ! eol file (q + 1) = newline" by (rule e(3))
      fix i assume i: "q \<le> i" "i < eol file (q + 1)"
      show "file ! i \<noteq> newline"
      proof (cases "i = q")
        case True
        with False show ?thesis by simp
      next
        case ne: False
        with i have "q + 1 \<le> i" by simp
        from e(4) [OF this i(2)] show ?thesis .
      qed
    qed
    moreover from Suc.hyps(2) lt have "n = length file - (q + 1)" by simp
    from Suc.hyps(1) [OF this q1]
    have "find_right (load file) (q + 1) (length file) = Inr (eol file (q + 1))" .
    ultimately show ?thesis using lt rd False by (subst find_right.simps) simp
  qed
qed

lemma find_left_run:
  assumes "l \<le> Suc q" and "\<And>i. l \<le> i \<Longrightarrow> i \<le> q \<Longrightarrow> file ! i \<noteq> newline"
    and "q < length file"
  shows "find_left (load file) q = (if l = 0 then Inr 0 else find_left (load file) (l - 1))"
  using assms
proof (induction q)
  case 0
  then show ?case by (cases "l = 0") (simp_all add: find_left.simps [of _ 0])
next
  case (Suc q)
  show ?case
  proof (cases "l = Suc (Suc q)")
    case True
    then show ?thesis by simp
  next
    case False
    with Suc.prems(1) have l: "l \<le> Suc q" by simp
    from Suc.prems(2) [OF l] have nn: "file ! Suc q \<noteq> newline" by simp
    from Suc.prems(3) have q: "q < length file" by simp
    have "find_left (load file) (Suc q) = find_left (load file) q"
      using nn load_rd [OF Suc.prems(3)] by (subst find_left.simps) simp
    also have "\<dots> = (if l = 0 then Inr 0 else find_left (load file) (l - 1))"
      using l Suc.prems(2) q by (intro Suc.IH) simp_all
    finally show ?thesis .
  qed
qed

text \<open>
  The two scans around a hit at \<open>p\<close> whose byte is no newline: \<^verbatim>\<open>left\<close> comes to rest on
  the start of the line and \<^verbatim>\<open>right\<close> on its end.
\<close>

lemma find_left_sol:
  assumes "p < length file" and "file ! p \<noteq> newline"
  shows "\<exists>left1 b. find_left (load file) p = Inr left1 \<and> rd (load file) left1 = Inr b
          \<and> (if b = newline \<and> left1 \<noteq> length file then left1 + 1 else left1) = sol file p"
proof -
  note s = sol_props [of "file" p]
  have run: "find_left (load file) p
      = (if sol file p = 0 then Inr 0 else find_left (load file) (sol file p - 1))"
  proof (rule find_left_run [OF _ _ assms(1)])
    show "sol file p \<le> Suc p" using s(1) by simp
    fix i assume i: "sol file p \<le> i" "i \<le> p"
    show "file ! i \<noteq> newline"
    proof (cases "i = p")
      case True
      with assms(2) show ?thesis by simp
    next
      case False
      with i have "i < p" by simp
      from s(3) [OF i(1) this] show ?thesis .
    qed
  qed
  show ?thesis
  proof (cases "sol file p = 0")
    case True
    have "file ! 0 \<noteq> newline"
    proof (cases "p = 0")
      case True
      with assms(2) show ?thesis by simp
    next
      case False
      with s(3) [of 0] True show ?thesis by simp
    qed
    moreover from assms(1) have "0 < length file" by arith
    then have "rd (load file) 0 = Inr (file ! 0)" by (rule load_rd)
    ultimately show ?thesis using run True by simp
  next
    case False
    define k where "k = sol file p - 1"
    from False have sk: "sol file p = Suc k" by (simp add: k_def)
    from s(2) False have nl: "file ! k = newline" by (simp add: k_def)
    from s(1) sk assms(1) have kl: "k < length file" by simp
    note r = load_rd [OF kl]
    have "find_left (load file) k = Inr k"
      using r nl by (subst find_left.simps) simp
    with run sk r nl kl show ?thesis by simp
  qed
qed

text \<open>The window the driver hands to a matcher: the file from the cursor on.\<close>

lemma window_load:
  assumes "c \<le> length file"
  shows "take (length file - c) (drop c (load file)) = drop c file"
  using assms by (simp add: load_def)

lemma occurs_at_drop:
  assumes "c \<le> length file"
  shows "occurs_at (drop c file) nd k \<longleftrightarrow> occurs_at file nd (c + k)"
proof -
  have "drop k (drop c file) = drop (c + k) file" by (simp add: add.commute)
  with assms show ?thesis by (auto simp: occurs_at_def)
qed

definition exact_matcher :: "Algorithm \<Rightarrow> bool" where
  "exact_matcher algorithm \<longleftrightarrow>
     algorithm \<in> {UseSimple, UseNative, UseBoyerMooreHorspool, UseBitap}"

lemma run_search_first_occurrence:
  assumes "exact_matcher algorithm" and "c \<le> length file" and "length file + 1 < 2 ^ 64"
    and "needleLength \<le> length needle"
  shows "run_search malloc_ok algorithm (load file) c (length file - c) needle needleLength
          = Some (Inr (Inr (first_occurrence (drop c file) (take needleLength needle))))"
proof -
  let ?hs = "drop c (load file)" and ?hl = "length file - c"
  have len: "?hl \<le> length ?hs" by (simp add: load_def)
  from assms(3) have lt: "?hl < 2 ^ 64" and lt1: "?hl + 1 < 2 ^ 64" by arith+
  note w = window_load [OF assms(2)]
  note simple = searchSimple_first_occurrence [OF len assms(4) lt1, unfolded w]
  note native = searchNative_first_occurrence [OF len assms(4) lt, unfolded w]
  note bmh = searchBoyerMooreHorspool_first_occurrence [OF len assms(4) lt, unfolded w]
  have bitap: "searchBitap (Some ?hs) ?hl (Some needle) needleLength
      = Inr (first_occurrence (drop c file) (take needleLength needle))"
  proof (cases "needleLength \<le> MaxBitWidth")
    case True
    from searchBitap_first_occurrence [OF len assms(4) True, unfolded w] show ?thesis .
  next
    case False
    then have "MaxBitWidth < needleLength" by simp
    from searchBitap_delegates [OF this] native show ?thesis by simp
  qed
  from assms(1) consider "algorithm = UseSimple" | "algorithm = UseNative"
    | "algorithm = UseBoyerMooreHorspool" | "algorithm = UseBitap"
    by (auto simp: exact_matcher_def)
  then show ?thesis
  proof cases
    case 1
    with simple show ?thesis by (simp add: run_search_def)
  next
    case 2
    with native show ?thesis by (simp add: run_search_def)
  next
    case 3
    with bmh show ?thesis by (simp add: run_search_def)
  next
    case 4
    with bitap show ?thesis by (simp add: run_search_def)
  qed
qed

text \<open>What one hit adds to the standard output.\<close>

definition line_bytes :: "byte list \<Rightarrow> nat \<times> nat \<Rightarrow> byte list" where
  "line_bytes file span = take (snd span - fst span) (drop (fst span) file)"

definition show_line :: "Display \<Rightarrow> byte list \<Rightarrow> nat \<times> nat \<Rightarrow> written list" where
  "show_line display file span =
     (if display = ShowCountOnly then [] else [Fwrite (line_bytes file span), Putchar newline])"

lemma scan_round_no_hit:
  assumes "exact_matcher algorithm" and "current s \<le> length file"
    and "length file + 1 < 2 ^ 64" and "needleLength \<le> length needle"
    and "\<And>q. current s \<le> q \<Longrightarrow> \<not> occurs_at file (take needleLength needle) q"
  shows "scan_round malloc_ok algorithm display (load file) (length file) needle needleLength s
          = Some (Inr (Break s))"
proof -
  from assms(2,3) have sub: "size_sub (length file) (current s) = length file - current s"
    by (intro size_sub_eq) simp_all
  have "\<not> occurs_at (drop (current s) file) (take needleLength needle) k" for k
    using assms(5) [of "current s + k"] by (simp add: occurs_at_drop [OF assms(2)])
  then have "first_occurrence (drop (current s) file) (take needleLength needle) = None"
    by (rule first_occurrence_NoneI)
  with run_search_first_occurrence [OF assms(1-4)] sub show ?thesis
    by (simp add: scan_round_def)
qed

lemma scan_round_hit:
  assumes "exact_matcher algorithm" and "current s \<le> length file"
    and "length file + 1 < 2 ^ 64" and "needleLength \<le> length needle"
    and "0 < needleLength" and "needle ! 0 \<noteq> newline"
    and "current s \<le> p" and "occurs_at file (take needleLength needle) p"
    and "\<And>q. current s \<le> q \<Longrightarrow> q < p \<Longrightarrow> \<not> occurs_at file (take needleLength needle) q"
  shows "scan_round malloc_ok algorithm display (load file) (length file) needle needleLength s
          = Some (Inr (Next (s\<lparr>current := eol file p, numHits := numHits s + 1,
               stdout := stdout s @ show_line display file (sol file p, eol file p)\<rparr>)))"
    and "p < eol file p"
proof -
  let ?nd = "take needleLength needle"
  from assms(4) have nlen: "length ?nd = needleLength" by simp
  from assms(8) assms(5) nlen have pl: "p < length file" by (simp add: occurs_at_def)
  have p0: "file ! p = needle ! 0"
  proof -
    from assms(8) nlen have "take needleLength (drop p file) = ?nd" by (simp add: occurs_at_def)
    then have "take needleLength (drop p file) ! 0 = ?nd ! 0" by simp
    with assms(5) pl show ?thesis by simp
  qed
  with assms(6) have pn: "file ! p \<noteq> newline" by simp
  from pl have ple: "p \<le> length file" by simp
  note e = eol_props [OF ple]
  show pr: "p < eol file p"
  proof (rule ccontr)
    assume "\<not> p < eol file p"
    with e(1) have "eol file p = p" by simp
    with e(3) pl pn show False by simp
  qed
  from assms(2,3) have sub: "size_sub (length file) (current s) = length file - current s"
    by (intro size_sub_eq) simp_all
  define k where "k = p - current s"
  from assms(7) have pk: "p = current s + k" by (simp add: k_def)
  have "first_occurrence (drop (current s) file) ?nd = Some k"
  proof (rule first_occurrence_SomeI)
    from assms(8) pk show "occurs_at (drop (current s) file) ?nd k"
      by (simp add: occurs_at_drop [OF assms(2)])
    fix q' assume "q' < k"
    with assms(9) [of "current s + q'"] pk
    show "\<not> occurs_at (drop (current s) file) ?nd q'"
      by (simp add: occurs_at_drop [OF assms(2)])
  qed
  with run_search_first_occurrence [OF assms(1-4)]
  have search: "run_search malloc_ok algorithm (load file) (current s) (length file - current s)
      needle needleLength = Some (Inr (Inr (Some k)))" by simp
  note right = find_right_eol [OF ple]
  show "scan_round malloc_ok algorithm display (load file) (length file) needle needleLength s
          = Some (Inr (Next (s\<lparr>current := eol file p, numHits := numHits s + 1,
               stdout := stdout s @ show_line display file (sol file p, eol file p)\<rparr>)))"
  proof (cases "display = ShowCountOnly")
    case True
    with search sub right pk show ?thesis
      by (simp add: scan_round_def show_line_def)
  next
    case False
    from find_left_sol [OF pl pn] obtain left1 b where
      left: "find_left (load file) p = Inr left1" "rd (load file) left1 = Inr b"
        "(if b = newline \<and> left1 \<noteq> length file then left1 + 1 else left1) = sol file p"
      by blast
    note sl = sol_props(1) [of "file" p]
    from sl pr have le: "sol file p \<le> eol file p" by simp
    from e(2) assms(3) have "eol file p < 2 ^ 64" by simp
    with le have len: "nat ((int (eol file p) - int (sol file p)) mod 2 ^ 64)
        = eol file p - sol file p"
      by (simp add: nat_diff_distrib' flip: of_nat_diff)
    have "fwrite (load file) (sol file p) (eol file p - sol file p)
        = Inr (Fwrite (line_bytes file (sol file p, eol file p)))"
      using le e(2) by (simp add: fwrite_def load_def line_bytes_def)
    with False search sub right pk left len show ?thesis
      by (simp add: scan_round_def show_line_def Let_def)
  qed
qed

text \<open>
  The lines of a file, as the pairs of their first offset and the offset of the newline
  that ends them (the end of the file for the last line), and the lines in which an
  occurrence of the needle starts.
\<close>

definition line_starts :: "byte list \<Rightarrow> nat list" where
  "line_starts file = 0 # map Suc (filter (\<lambda>i. file ! i = newline) [0..<length file])"

definition line_spans :: "byte list \<Rightarrow> (nat \<times> nat) list" where
  "line_spans file = map (\<lambda>l. (l, eol file l)) (line_starts file)"

definition hit_from :: "byte list \<Rightarrow> byte list \<Rightarrow> nat \<Rightarrow> nat \<times> nat \<Rightarrow> bool" where
  "hit_from file nd c span = list_ex (occurs_at file nd) [max (fst span) c..<snd span]"

definition hit_lines :: "byte list \<Rightarrow> byte list \<Rightarrow> (nat \<times> nat) list" where
  "hit_lines file nd = filter (hit_from file nd 0) (line_spans file)"

lemma hit_from_iff:
  "hit_from file nd c (l, r) \<longleftrightarrow> (\<exists>q. l \<le> q \<and> c \<le> q \<and> q < r \<and> occurs_at file nd q)"
  by (auto simp: hit_from_def list_ex_iff)

lemma eol_le:
  assumes "a \<le> i" and "i < length file" and "file ! i = newline"
  shows "eol file a \<le> i"
proof (rule ccontr)
  assume "\<not> eol file a \<le> i"
  then have "i < eol file a" by simp
  moreover from assms have "a \<le> length file" by simp
  ultimately have "file ! i \<noteq> newline" using assms(1) eol_props(4) by blast
  with assms(3) show False by simp
qed

lemma sorted_line_starts: "sorted_wrt (<) (line_starts file)"
proof -
  have "sorted_wrt (<) (filter (\<lambda>i. file ! i = newline) [0..<length file])"
    by (intro sorted_wrt_filter) simp
  then have "sorted_wrt (<) (map Suc (filter (\<lambda>i. file ! i = newline) [0..<length file]))"
    by (simp add: sorted_wrt_map)
  then show ?thesis by (auto simp: line_starts_def)
qed

lemma line_starts_iff:
  "l \<in> set (line_starts file) \<longleftrightarrow> l = 0 \<or> (l \<le> length file \<and> file ! (l - 1) = newline)"
proof (cases l)
  case 0
  then show ?thesis by (simp add: line_starts_def)
next
  case (Suc k)
  then show ?thesis by (auto simp: line_starts_def)
qed

lemma split_sorted:
  assumes "sorted_wrt (<) xs" and "(x :: nat) \<in> set xs"
  shows "\<exists>as bs. xs = as @ x # bs \<and> (\<forall>a\<in>set as. a < x) \<and> (\<forall>b\<in>set bs. x < b)"
proof -
  from assms(2) obtain as bs where s: "xs = as @ x # bs" by (auto dest: split_list)
  with assms(1) have "(\<forall>a\<in>set as. a < x) \<and> (\<forall>b\<in>set bs. x < b)"
    by (auto simp: sorted_wrt_append)
  with s show ?thesis by blast
qed

lemma filter_step:
  assumes "\<And>y. y \<in> set as \<Longrightarrow> \<not> P y \<and> \<not> Q y" and "P x" and "\<not> Q x"
    and "\<And>y. y \<in> set bs \<Longrightarrow> P y = Q y"
  shows "filter P (as @ x # bs) = x # filter Q (as @ x # bs)"
proof -
  from assms(1) have "filter P as = []" "filter Q as = []" by (simp_all add: filter_empty_conv)
  moreover from assms(4) have "filter P bs = filter Q bs" by (intro filter_cong) simp_all
  ultimately show ?thesis using assms(2,3) by simp
qed

text \<open>
  From the cursor \<open>c\<close>, the first hit \<open>p\<close> picks the first line that is still to be
  reported, and the lines to be reported from the end of that line on are the others.
\<close>

lemma hits_step:
  assumes "c \<le> p" and "occurs_at file nd p" and "p < length file" and "file ! p \<noteq> newline"
    and none: "\<And>q. c \<le> q \<Longrightarrow> q < p \<Longrightarrow> \<not> occurs_at file nd q"
  shows "filter (hit_from file nd c) (line_spans file)
          = (sol file p, eol file p) # filter (hit_from file nd (eol file p)) (line_spans file)"
proof -
  define l r where "l = sol file p" and "r = eol file p"
  note s = sol_props [of "file" p, folded l_def]
  from assms(3) have ple: "p \<le> length file" by simp
  note e = eol_props [OF ple, folded r_def]
  have pr: "p < r"
  proof (rule ccontr)
    assume "\<not> p < r"
    with e(1) have "r = p" by simp
    with e(3) assms(3,4) show False by simp
  qed
  have clean: "file ! i \<noteq> newline" if "l \<le> i" "i < r" for i
  proof (cases "i < p")
    case True
    from s(3) [OF that(1) True] show ?thesis .
  next
    case False
    then have "p \<le> i" by simp
    from e(4) [OF this that(2)] show ?thesis .
  qed
  have lr: "eol file l = r"
    using s(1) e(1) e(2) e(3) clean by (intro eol_unique) simp_all
  from s(1) s(2) assms(3) have "l \<in> set (line_starts file)"
    unfolding line_starts_iff by auto
  from split_sorted [OF sorted_line_starts this] obtain as bs where
    split: "line_starts file = as @ l # bs" and as: "\<And>a. a \<in> set as \<Longrightarrow> a < l"
    and bs: "\<And>b. b \<in> set bs \<Longrightarrow> l < b" by blast
  let ?span = "\<lambda>l. (l, eol file l)"
  from split lr have spans: "line_spans file = map ?span as @ (l, r) # map ?span bs"
    by (simp add: line_spans_def)
  have "filter (hit_from file nd c) (map ?span as @ (l, r) # map ?span bs)
      = (l, r) # filter (hit_from file nd r) (map ?span as @ (l, r) # map ?span bs)"
  proof (rule filter_step)
    fix y assume "y \<in> set (map ?span as)"
    then obtain a where a: "a \<in> set as" "y = (a, eol file a)" by auto
    from as [OF a(1)] have al: "a < l" .
    with s(2) have nl: "file ! (l - 1) = newline" by auto
    from al s(1) assms(3) have "eol file a \<le> l - 1" by (intro eol_le nl) simp_all
    with al have el: "eol file a < l" by simp
    have "\<not> hit_from file nd c (a, eol file a)"
    proof
      assume "hit_from file nd c (a, eol file a)"
      then obtain q where "c \<le> q" "q < eol file a" "occurs_at file nd q"
        unfolding hit_from_iff by blast
      with el s(1) none [of q] show False by simp
    qed
    moreover have "\<not> hit_from file nd r (a, eol file a)"
      unfolding hit_from_iff using el s(1) pr by auto
    ultimately show "\<not> hit_from file nd c y \<and> \<not> hit_from file nd r y" using a(2) by simp
  next
    from s(1) assms(1,2) pr show "hit_from file nd c (l, r)"
      unfolding hit_from_iff by blast
    show "\<not> hit_from file nd r (l, r)" unfolding hit_from_iff by auto
  next
    fix y assume "y \<in> set (map ?span bs)"
    then obtain b where b: "b \<in> set bs" "y = (b, eol file b)" by auto
    from bs [OF b(1)] have lb: "l < b" .
    from b(1) split have "b \<in> set (line_starts file)" by simp
    with lb have bl: "b \<le> length file" "file ! (b - 1) = newline"
      unfolding line_starts_iff by auto
    have "r < b"
    proof (rule ccontr)
      assume "\<not> r < b"
      with lb have "l \<le> b - 1" "b - 1 < r" by simp_all
      from clean [OF this] bl(2) show False by simp
    qed
    with assms(1) pr have "max b c = b" "max b r = b" by simp_all
    with b(2) show "hit_from file nd c y = hit_from file nd r y" by (simp add: hit_from_def)
  qed
  with spans show ?thesis by (simp add: l_def r_def)
qed

lemma hits_none:
  assumes "\<And>q. c \<le> q \<Longrightarrow> \<not> occurs_at file nd q"
  shows "filter (hit_from file nd c) (line_spans file) = []"
  using assms by (auto simp: filter_empty_conv hit_from_iff)

lemma strlen_from_in_bounds:
  "strlen_from m i = Inr n \<Longrightarrow> n < length m"
proof (induction m i rule: strlen_from.induct)
  case (1 m i)
  show ?case
  proof (cases "i < length m")
    case False
    with "1.prems" show ?thesis by (subst (asm) strlen_from.simps) (simp add: rd_def)
  next
    case True
    then have r: "rd m i = Inr (m ! i)" by (simp add: rd_def)
    show ?thesis
    proof (cases "m ! i = NUL")
      case nul: True
      with "1.prems" r True show ?thesis by (subst (asm) strlen_from.simps) simp
    next
      case False
      with "1.prems" r have "strlen_from m (i + 1) = Inr n"
        by (subst (asm) strlen_from.simps) simp
      from "1.IH" [OF r False this] show ?thesis .
    qed
  qed
qed

text \<open>
  The loop from any cursor: it ends, and it has reported, in the order of the file and
  each one once, the lines in which an occurrence starts at or behind the cursor.
\<close>

lemma scan_loop_reports:
  assumes "exact_matcher algorithm" and "length file + 1 < 2 ^ 64"
    and "needleLength \<le> length needle" and "0 < needleLength" and "needle ! 0 \<noteq> newline"
    and "current s \<le> length file"
  shows "\<exists>s'. scan_loop malloc_ok algorithm display (load file) (length file)
                 needle needleLength s = Some (Inr (s', None))
           \<and> numHits s' = numHits s + of_nat (length
                 (filter (hit_from file (take needleLength needle) (current s)) (line_spans file)))
           \<and> stdout s' = stdout s @ concat (map (show_line display file)
                 (filter (hit_from file (take needleLength needle) (current s)) (line_spans file)))"
  using assms(6)
proof (induction "length file - current s" arbitrary: s rule: less_induct)
  case less
  let ?nd = "take needleLength needle"
  let ?loop = "scan_loop malloc_ok algorithm display (load file) (length file) needle needleLength"
  let ?hits = "\<lambda>c. filter (hit_from file ?nd c) (line_spans file)"
  note c = less.prems
  show ?case
  proof (cases "\<exists>q \<ge> current s. occurs_at file ?nd q")
    case False
    then have none: "\<And>q. current s \<le> q \<Longrightarrow> \<not> occurs_at file ?nd q" by blast
    from scan_round_no_hit [OF assms(1) c assms(2,3) none]
    have "?loop s = Some (Inr (s, None))" by (subst scan_loop.simps) simp
    moreover from hits_none [OF none] have "?hits (current s) = []" .
    ultimately show ?thesis by simp
  next
    case True
    define p where "p = (LEAST q. current s \<le> q \<and> occurs_at file ?nd q)"
    from True obtain q0 where "current s \<le> q0 \<and> occurs_at file ?nd q0" by blast
    then have "current s \<le> p \<and> occurs_at file ?nd p" unfolding p_def by (rule LeastI)
    then have cp: "current s \<le> p" and occ: "occurs_at file ?nd p" by simp_all
    have none: "\<not> occurs_at file ?nd q" if "current s \<le> q" "q < p" for q
      using that not_less_Least [of q "\<lambda>q. current s \<le> q \<and> occurs_at file ?nd q"]
      by (auto simp: p_def)
    define s' where "s' = s\<lparr>current := eol file p, numHits := numHits s + 1,
        stdout := stdout s @ show_line display file (sol file p, eol file p)\<rparr>"
    from scan_round_hit [OF assms(1) c assms(2-5) cp occ none]
    have round: "scan_round malloc_ok algorithm display (load file) (length file)
        needle needleLength s = Some (Inr (Next s'))" and pr: "p < eol file p"
      by (simp_all add: s'_def)
    from assms(3) have nlen: "length ?nd = needleLength" by simp
    from occ assms(4) nlen have pl: "p < length file" by (simp add: occurs_at_def)
    have p0: "file ! p = needle ! 0"
    proof -
      from occ nlen have "take needleLength (drop p file) = ?nd" by (simp add: occurs_at_def)
      then have "take needleLength (drop p file) ! 0 = ?nd ! 0" by simp
      with assms(4) pl show ?thesis by simp
    qed
    with assms(5) have pn: "file ! p \<noteq> newline" by simp
    from pl have el: "eol file p \<le> length file" by (intro eol_props(2)) simp
    have cur: "current s' = eol file p" by (simp add: s'_def)
    from cp pr el cur have "length file - current s' < length file - current s" by simp
    moreover from el cur have "current s' \<le> length file" by simp
    ultimately obtain s'' where
      loop: "?loop s' = Some (Inr (s'', None))"
      and hits: "numHits s'' = numHits s' + of_nat (length (?hits (current s')))"
      and out: "stdout s'' = stdout s' @ concat (map (show_line display file) (?hits (current s')))"
      using less.hyps [of s'] by blast
    from round loop have "?loop s = Some (Inr (s'', None))" by (subst scan_loop.simps) simp
    moreover note step = hits_step [OF cp occ pl pn none]
    from hits cur step have "numHits s'' = numHits s + of_nat (length (?hits (current s)))"
      by (simp add: s'_def)
    moreover from out cur step
    have "stdout s'' = stdout s @ concat (map (show_line display file) (?hits (current s)))"
      by (simp add: s'_def)
    ultimately show ?thesis by blast
  qed
qed

text \<open>What the program is to print and to return, from the lines with an occurrence.\<close>

definition grep_result :: "Display \<Rightarrow> byte list \<Rightarrow> byte list \<Rightarrow> written list \<times> int" where
  "grep_result display file nd =
     (let hits = hit_lines file nd;
          count = (word_of_nat (length hits) :: 32 word)
      in (if display = ShowCountOnly then [Printf_d (sint count)]
          else concat (map (\<lambda>span. [Fwrite (line_bytes file span), Putchar newline]) hits),
          if count = 0 then 1 else 0))"

lemma mygrep_reports_each_line_once:
  assumes "algorithm = UseBest \<or> exact_matcher algorithm"
    and "strlen needle = Inr needleLength" and "0 < needleLength"
    and "needle ! 0 \<noteq> newline" and "file \<noteq> []" and "length file + 1 < 2 ^ 64"
  shows "mygrep malloc_ok algorithm display needle file
          = Some (Inr (grep_result display file (take needleLength needle)))"
proof -
  let ?nd = "take needleLength needle"
  from assms(1) have alg: "exact_matcher (choose_algorithm algorithm needleLength)"
    by (auto simp: choose_algorithm_def exact_matcher_def)
  from assms(2) have "needleLength < length needle"
    unfolding strlen_def by (rule strlen_from_in_bounds)
  then have nl: "needleLength \<le> length needle" by simp
  have start: "current scan_start \<le> length file" by (simp add: scan_start_def)
  from scan_loop_reports [OF alg assms(6) nl assms(3,4) start, of malloc_ok display]
  obtain s' where
    loop: "scan_loop malloc_ok (choose_algorithm algorithm needleLength) display (load file)
        (length file) needle needleLength scan_start = Some (Inr (s', None))"
    and hits: "numHits s' = of_nat (length (hit_lines file ?nd))"
    and out: "stdout s' = concat (map (show_line display file) (hit_lines file ?nd))"
    by (auto simp: scan_start_def hit_lines_def)
  show ?thesis
  proof (cases "display = ShowCountOnly")
    case True
    then have "show_line display file = (\<lambda>span. [])"
      by (intro ext) (simp add: show_line_def)
    with out have "stdout s' = []" by simp
    with True loop hits assms(2,5) show ?thesis
      by (simp add: mygrep_def grep_result_def Let_def)
  next
    case False
    then have "show_line display file
        = (\<lambda>span. [Fwrite (line_bytes file span), Putchar newline])"
      by (intro ext) (simp add: show_line_def)
    with out have "stdout s' = concat (map (\<lambda>span. [Fwrite (line_bytes file span),
        Putchar newline]) (hit_lines file ?nd))" by simp
    with False loop hits assms(2,5) show ?thesis
      by (simp add: mygrep_def grep_result_def Let_def)
  qed
qed

lemma mygrep_reports_example:
  "mygrep malloc_ok UseBest display [CHR ''b'', NUL]
      [CHR ''a'', CHR ''b'', newline, CHR ''c'', newline, CHR ''b'', CHR ''b'']
    = Some (Inr (if display = ShowCountOnly then [Printf_d 2]
                 else [Fwrite ''ab'', Putchar newline, Fwrite ''bb'', Putchar newline], 0))"
proof -
  have "strlen [CHR ''b'', NUL] = Inr 1"
    by (simp add: strlen_def strlen_from.simps rd_def NUL_def)
  from mygrep_reports_each_line_once [OF _ this, of UseBest 
      "[CHR ''a'', CHR ''b'', newline, CHR ''c'', newline, CHR ''b'', CHR ''b'']" malloc_ok display]
  show ?thesis
    by (simp add: grep_result_def hit_lines_def line_spans_def line_starts_def eol_def
        hit_from_def occurs_at_def line_bytes_def newline_def upt_rec Let_def)
qed


section \<open>The claims\<close>

text \<open>Unfolding equations for running the matchers on concrete inputs.\<close>

lemmas libc_eval = rd_def NUL_def memchr.simps memcmp_eq_def strlen_def strlen_from.simps
  strchr.simps size_sub_def Let_def

lemmas simple_eval = searchSimple_def simple_loop.simps simple_compare.simps
  searchSimpleString_def simpleString_loop.simps simpleString_compare.simps

lemmas rabinKarp_eval = searchRabinKarp_def rabinKarp_hash.simps rabinKarp_loop.simps
  searchRabinKarpString_def rabinKarpString_hash.simps rabinKarpString_loop.simps char_val_def

lemmas bmh_eval = searchBoyerMooreHorspool_def bmh_table_def bmh_entry_def NumChar_def
  bmh_prepare.simps bmh_compare.simps bmh_loop.simps searchBoyerMooreHorspoolString_def

lemmas kmp_eval = searchKnuthMorrisPratt_def kmp_alloc_def MaxLocalMemory_def tbl_read_def
  tbl_write_def kmp_fallback.simps kmp_round_def kmp_prepare.simps kmp_shift.simps
  kmp_loop.simps kmp_result_def rd_int_def searchKnuthMorrisPrattString_def
  kmpString_prepare.simps kmpString_loop.simps

lemmas bitap_eval = searchBitap_def searchBitapString_def bitap_masks.simps bitap_loop.simps
  bitapString_loop.simps bitap_result_def MaxBitWidth_def AlphabetSize_def

text \<open>
  C1 (cross-algorithm parity). The claim asks the six length-based matchers to return
  the same offset, the one \<^verbatim>\<open>searchSimple\<close> returns. On the two-byte haystack \<open>a NUL\<close>
  and the needle \<open>a NUL\<close>, five of them return offset 0. \<^verbatim>\<open>searchRabinKarp\<close> returns
  \<^verbatim>\<open>NULL\<close>: its hash loop gives up at the first zero byte of the haystack.
\<close>

theorem C1_parity_fails_for_RabinKarp:
  "searchSimple (Some [CHR ''a'', NUL]) 2 (Some [CHR ''a'', NUL]) 2 = Inr (Some 0)
   \<and> searchNative (Some [CHR ''a'', NUL]) 2 (Some [CHR ''a'', NUL]) 2 = Inr (Some 0)
   \<and> searchKnuthMorrisPratt True (Some [CHR ''a'', NUL]) 2 (Some [CHR ''a'', NUL]) 2
       = Some (Inr (Some 0))
   \<and> searchBoyerMooreHorspool (Some [CHR ''a'', NUL]) 2 (Some [CHR ''a'', NUL]) 2
       = Some (Inr (Some 0))
   \<and> searchBitap (Some [CHR ''a'', NUL]) 2 (Some [CHR ''a'', NUL]) 2 = Inr (Some 0)
   \<and> searchRabinKarp (Some [CHR ''a'', NUL]) 2 (Some [CHR ''a'', NUL]) 2 = Inr None"
proof (intro conjI)
  show "searchSimple (Some [CHR ''a'', NUL]) 2 (Some [CHR ''a'', NUL]) 2 = Inr (Some 0)"
    by (simp add: libc_eval simple_eval)
  show "searchNative (Some [CHR ''a'', NUL]) 2 (Some [CHR ''a'', NUL]) 2 = Inr (Some 0)"
    by (simp add: libc_eval native_eval)
  show "searchKnuthMorrisPratt True (Some [CHR ''a'', NUL]) 2 (Some [CHR ''a'', NUL]) 2
       = Some (Inr (Some 0))"
    by (simp add: libc_eval kmp_eval)
  show "searchBoyerMooreHorspool (Some [CHR ''a'', NUL]) 2 (Some [CHR ''a'', NUL]) 2
       = Some (Inr (Some 0))"
    by (simp add: libc_eval bmh_eval)
  show "searchBitap (Some [CHR ''a'', NUL]) 2 (Some [CHR ''a'', NUL]) 2 = Inr (Some 0)"
    by (simp add: libc_eval bitap_eval)
  show "searchRabinKarp (Some [CHR ''a'', NUL]) 2 (Some [CHR ''a'', NUL]) 2 = Inr None"
    by (simp add: libc_eval rabinKarp_eval)
qed

text \<open>
  C2 (empty needle). \<^verbatim>\<open>searchSimpleString\<close> has no guard for the empty needle: its
  outer loop \<^verbatim>\<open>while (*haystack)\<close> is not entered for the empty haystack, so the empty
  needle is not found in the empty haystack. This holds for every pair of strings that
  both start with their terminator.
\<close>

theorem C2_SimpleString_empty_needle_empty_haystack:
  "searchSimpleString (Some (NUL # h)) (Some (NUL # n)) = Inr None"
  by (simp add: searchSimpleString_def simpleString_loop.simps rd_def)

text \<open>
  C3 (bounds). The haystack object has exactly \<^verbatim>\<open>haystackLength\<close> bytes, so a read at
  an index outside \<open>[0, haystackLength)\<close> is \<open>OutOfBounds\<close>. \<^verbatim>\<open>searchRabinKarp\<close> rolls its
  hash with \<^verbatim>\<open>*(haystack + needleLength)\<close> before it tests for the end: on the haystack
  \<open>aa\<close> and the needle \<open>ab\<close> it reads \<^verbatim>\<open>haystack[2]\<close>. When the object is longer than
  \<^verbatim>\<open>haystackLength\<close>, it can also return an offset beyond it: with the object \<open>xxabcd\<close>,
  \<^verbatim>\<open>haystackLength = 4\<close> and the needle \<open>bcd\<close> it returns offset 3, and \<open>3 + 3 > 4\<close>.
\<close>

theorem C3_RabinKarp_reads_past_haystack:
  "searchRabinKarp (Some ''aa'') 2 (Some ''ab'') 2 = Inl OutOfBounds
   \<and> searchRabinKarp (Some ''xxabcd'') 4 (Some ''bcd'') 3 = Inr (Some 3)"
  by (simp add: libc_eval simple_eval rabinKarp_eval)

text \<open>
  C5 (embedded NUL). In the haystack \<open>a NUL a b\<close> the needle \<open>ab\<close> occurs at offset 2,
  after the NUL byte. \<^verbatim>\<open>searchSimple\<close> finds it; \<^verbatim>\<open>searchRabinKarp\<close> starts at the first
  \<open>a\<close>, meets the NUL byte in its hash loop and returns \<^verbatim>\<open>NULL\<close>.
\<close>

theorem C5_RabinKarp_misses_match_after_NUL:
  "searchSimple (Some [CHR ''a'', NUL, CHR ''a'', CHR ''b'']) 4 (Some ''ab'') 2 = Inr (Some 2)
   \<and> searchRabinKarp (Some [CHR ''a'', NUL, CHR ''a'', CHR ''b'']) 4 (Some ''ab'') 2 = Inr None"
  by (simp add: libc_eval simple_eval rabinKarp_eval)

text \<open>
  C6 (Horspool's table and advance rule), as the claim states the table: the needle
  \<open>ab\<close> has its byte \<open>b\<close> at the last position, so the distance from the last occurrence
  of \<open>b\<close> to the last position is 0. The table of the code holds 2 for \<open>b\<close>: its
  loop stops before the needle's last byte.
\<close>

theorem C6_table_last_byte_counterexample:
  "bmh_entry ''ab'' 2 CHR ''b'' = Inr 2 \<and> spec_skip ''ab'' CHR ''b'' = 0"
  by (simp add: bmh_eval libc_eval spec_skip_def)

text \<open>
  C6, amended. For every non-empty needle (its \<^verbatim>\<open>needleLength\<close> bytes are
  \<open>take needleLength nd\<close>) and every haystack of \<^verbatim>\<open>haystackLength\<close> bytes:
  \<^item> the table maps each byte to the distance from its last occurrence among the needle's
    bytes other than the last one to the needle's last position, and to \<^verbatim>\<open>needleLength\<close>
    when the byte does not occur among them (\<open>horspool_skip\<close>);
  \<^item> a window inside the haystack is compared from the needle's last position down to its
    first, and the comparison succeeds exactly when the window equals the needle;
  \<^item> after a mismatch the walk continues with the window advanced by the table entry of
    the haystack byte under the needle's last position;
  \<^item> the search returns the first occurrence of the needle in the haystack, or \<^verbatim>\<open>NULL\<close>
    when there is none.
\<close>

theorem C6_horspool_table_advance_first_occurrence:
  assumes "0 < needleLength" and "needleLength \<le> length nd" and "needleLength < 2 ^ 64"
    and "haystackLength \<le> length hs" and "haystackLength < 2 ^ 64"
  shows "bmh_entry nd needleLength c = Inr (horspool_skip (take needleLength nd) c)
    \<and> (\<forall>p. p + needleLength \<le> length hs \<longrightarrow>
          bmh_compare hs p nd (needleLength - 1) = Inr (match_at hs p nd needleLength))
    \<and> (\<forall>p rest marker skip.
          needleLength \<le> rest \<and> bmh_compare hs p nd (needleLength - 1) = Inr False
            \<and> rd hs (p + (needleLength - 1)) = Inr marker \<longrightarrow>
          bmh_loop hs p rest nd needleLength (needleLength - 1) skip =
          bmh_loop hs (p + skip ! of_char marker) (size_sub rest (skip ! of_char marker))
            nd needleLength (needleLength - 1) skip)
    \<and> searchBoyerMooreHorspool (Some hs) haystackLength (Some nd) needleLength
        = Some (Inr (first_occurrence (take haystackLength hs) (take needleLength nd)))"
proof (intro conjI allI impI)
  show "bmh_entry nd needleLength c = Inr (horspool_skip (take needleLength nd) c)"
    using assms(1-3) by (rule bmh_entry_horspool)
next
  fix p assume "p + needleLength \<le> length hs"
  with assms(1,2) have "p + (needleLength - 1) < length hs" "needleLength - 1 < length nd"
    by simp_all
  from bmh_compare_match [OF this] assms(1)
  show "bmh_compare hs p nd (needleLength - 1) = Inr (match_at hs p nd needleLength)"
    by simp
next
  fix p rest marker skip
  assume "needleLength \<le> rest \<and> bmh_compare hs p nd (needleLength - 1) = Inr False
            \<and> rd hs (p + (needleLength - 1)) = Inr marker"
  then show "bmh_loop hs p rest nd needleLength (needleLength - 1) skip =
          bmh_loop hs (p + skip ! of_char marker) (size_sub rest (skip ! of_char marker))
            nd needleLength (needleLength - 1) skip"
    by (intro bmh_loop_advance) simp_all
next
  show "searchBoyerMooreHorspool (Some hs) haystackLength (Some nd) needleLength
        = Some (Inr (first_occurrence (take haystackLength hs) (take needleLength nd)))"
    using assms(4,2,5) by (rule searchBoyerMooreHorspool_first_occurrence)
qed

theorem C6_horspool_witness:
  "bmh_entry ''needle'' 6 CHR ''d'' = Inr 2
   \<and> bmh_entry ''needle'' 6 CHR ''x'' = Inr 6
   \<and> searchBoyerMooreHorspool (Some ''a needle in hay'') 15 (Some ''needle'') 6
       = Some (Inr (Some 2))"
proof -
  have len: "(0::nat) < 6" "6 \<le> length ''needle''" "(6::nat) < 2 ^ 64"
    "15 \<le> length ''a needle in hay''" "(15::nat) < 2 ^ 64"
    by simp_all
  have fo: "first_occurrence (take 15 ''a needle in hay'') (take 6 ''needle'') = Some 2"
    by (simp add: first_occurrence_def occurs_at_def upt_rec)
  from C6_horspool_table_advance_first_occurrence [OF len, of "CHR ''d''"]
    C6_horspool_table_advance_first_occurrence [OF len, of "CHR ''x''"] fo
  show ?thesis by (simp add: horspool_skip_def)
qed

text \<open>
  C10 (termination of Boyer-Moore-Horspool). For every non-empty needle and every
  haystack at least as long: the table is built without a fault, each of its
  \<open>NumChar\<close> entries lies between 1 and \<^verbatim>\<open>needleLength\<close>, so that
  \<^verbatim>\<open>haystackLength -= skip[marker]\<close> does not wrap around and yields a smaller value
  whenever the loop condition \<^verbatim>\<open>haystackLength >= needleLength\<close> holds; and the search
  returns (a pointer or \<^verbatim>\<open>NULL\<close>, with no fault). The loop is a partial function of
  the model, so that it returns is what is proved here, by induction on the remaining
  length.
\<close>

theorem C10_horspool_entries_bounded_and_search_returns:
  assumes "0 < needleLength" and "needleLength \<le> haystackLength"
    and "haystackLength \<le> length hs" and "needleLength \<le> length nd"
    and "haystackLength < 2 ^ 64"
  shows "(\<exists>skip. bmh_table nd needleLength = Inr skip \<and> length skip = NumChar
            \<and> (\<forall>c<NumChar. 1 \<le> skip ! c \<and> skip ! c \<le> needleLength
                  \<and> (\<forall>rest. needleLength \<le> rest \<and> rest < 2 ^ 64 \<longrightarrow>
                        size_sub rest (skip ! c) = rest - skip ! c
                        \<and> size_sub rest (skip ! c) < rest)))
    \<and> (\<exists>r. searchBoyerMooreHorspool (Some hs) haystackLength (Some nd) needleLength
              = Some (Inr r))"
proof
  from assms have nl: "needleLength < 2 ^ 64" by simp
  from bmh_table_bounds [OF assms(1,4) nl]
  obtain skip where skip: "bmh_table nd needleLength = Inr skip" "length skip = NumChar"
      "\<forall>c<NumChar. 1 \<le> skip ! c \<and> skip ! c \<le> needleLength"
    by blast
  have "size_sub rest (skip ! c) = rest - skip ! c \<and> size_sub rest (skip ! c) < rest"
    if "c < NumChar" "needleLength \<le> rest \<and> rest < 2 ^ 64" for c rest
  proof -
    from skip(3) that(1) have b: "1 \<le> skip ! c" "skip ! c \<le> needleLength" by simp_all
    with that(2) have "skip ! c \<le> rest" "rest < 2 ^ 64" by simp_all
    then have "size_sub rest (skip ! c) = rest - skip ! c" by (rule size_sub_eq)
    moreover from b that(2) have "rest - skip ! c < rest" by linarith
    ultimately show ?thesis by simp
  qed
  with skip show "\<exists>skip. bmh_table nd needleLength = Inr skip \<and> length skip = NumChar
            \<and> (\<forall>c<NumChar. 1 \<le> skip ! c \<and> skip ! c \<le> needleLength
                  \<and> (\<forall>rest. needleLength \<le> rest \<and> rest < 2 ^ 64 \<longrightarrow>
                        size_sub rest (skip ! c) = rest - skip ! c
                        \<and> size_sub rest (skip ! c) < rest))"
    by blast
next
  show "\<exists>r. searchBoyerMooreHorspool (Some hs) haystackLength (Some nd) needleLength
              = Some (Inr r)"
    using searchBoyerMooreHorspool_first_occurrence [OF assms(3,4,5)] by blast
qed

theorem C10_horspool_witness:
  "(\<exists>skip. bmh_table ''needle'' 6 = Inr skip \<and> length skip = NumChar
            \<and> (\<forall>c<NumChar. 1 \<le> skip ! c \<and> skip ! c \<le> 6
                  \<and> (\<forall>rest. 6 \<le> rest \<and> rest < 2 ^ 64 \<longrightarrow>
                        size_sub rest (skip ! c) = rest - skip ! c
                        \<and> size_sub rest (skip ! c) < rest)))
    \<and> (\<exists>r. searchBoyerMooreHorspool (Some ''a needle in hay'') 15 (Some ''needle'') 6
              = Some (Inr r))"
proof -
  have len: "(0::nat) < 6" "(6::nat) \<le> 15" "15 \<le> length ''a needle in hay''"
    "6 \<le> length ''needle''" "(15::nat) < 2 ^ 64"
    by simp_all
  show ?thesis by (rule C10_horspool_entries_bounded_and_search_returns [OF len])
qed

text \<open>
  C4 (the skip table of Knuth-Morris-Pratt). The preprocessing writes the cells
  \<open>0 .. needleLength\<close> of the table, one more than the needle has bytes. The table has
  \<open>MaxLocalMemory = 256\<close> cells for a needle of at most 256 bytes and \<^verbatim>\<open>needleLength\<close>
  cells on the heap for a longer one. So for every needle of at least 256 bytes (and
  below \<open>2 ^ 62\<close>, where \<^verbatim>\<open>needleLength * sizeof(int)\<close> does not wrap around) the write
  \<^verbatim>\<open>skip[i + 1]\<close> of the last round lies behind the last cell, whatever the needle's
  bytes are. For a needle of at most 255 bytes the preprocessing stays inside the local
  array and fills the cells \<open>0 .. needleLength\<close>.
\<close>

theorem C4_skip_table_written_behind_its_capacity:
  "MaxLocalMemory = 256
   \<and> (MaxLocalMemory \<le> needleLength \<and> needleLength < 2 ^ 62 \<and> needleLength \<le> length nd
        \<and> needleLength \<le> haystackLength \<longrightarrow>
        searchKnuthMorrisPratt True (Some hs) haystackLength (Some nd) needleLength
        = Some (Inl OutOfBounds))
   \<and> (0 < needleLength \<and> needleLength < MaxLocalMemory \<and> needleLength \<le> length nd \<longrightarrow>
        (\<exists>skip0 skip. kmp_alloc malloc_ok needleLength = Some skip0
          \<and> length skip0 = MaxLocalMemory
          \<and> kmp_prepare nd needleLength 0 (skip0[0 := Some (- 1)]) = Some (Inr skip)
          \<and> length skip = MaxLocalMemory \<and> kmp_filled skip needleLength))"
proof (intro conjI impI)
  show "MaxLocalMemory = 256" by (simp add: MaxLocalMemory_def)
next
  assume "MaxLocalMemory \<le> needleLength \<and> needleLength < 2 ^ 62 \<and> needleLength \<le> length nd
        \<and> needleLength \<le> haystackLength"
  then show "searchKnuthMorrisPratt True (Some hs) haystackLength (Some nd) needleLength
        = Some (Inl OutOfBounds)"
    by (intro searchKnuthMorrisPratt_overflows) simp_all
next
  assume "0 < needleLength \<and> needleLength < MaxLocalMemory \<and> needleLength \<le> length nd"
  then show "\<exists>skip0 skip. kmp_alloc malloc_ok needleLength = Some skip0
          \<and> length skip0 = MaxLocalMemory
          \<and> kmp_prepare nd needleLength 0 (skip0[0 := Some (- 1)]) = Some (Inr skip)
          \<and> length skip = MaxLocalMemory \<and> kmp_filled skip needleLength"
    by (intro kmp_preprocessing_in_capacity) simp_all
qed

theorem C4_skip_table_witness:
  "searchKnuthMorrisPratt True (Some (replicate 300 CHR ''a'')) 300
      (Some (replicate 256 CHR ''a'')) 256 = Some (Inl OutOfBounds)
   \<and> (\<exists>skip0 skip. kmp_alloc True 4 = Some skip0
          \<and> length skip0 = MaxLocalMemory
          \<and> kmp_prepare ''aaab'' 4 0 (skip0[0 := Some (- 1)]) = Some (Inr skip)
          \<and> length skip = MaxLocalMemory \<and> kmp_filled skip 4)"
proof -
  have long: "MaxLocalMemory \<le> 256 \<and> (256::nat) < 2 ^ 62
      \<and> 256 \<le> length (replicate 256 CHR ''a'') \<and> (256::nat) \<le> 300"
    by (simp add: MaxLocalMemory_def)
  have short: "(0::nat) < 4 \<and> 4 < MaxLocalMemory \<and> 4 \<le> length ''aaab''"
    by (simp add: MaxLocalMemory_def)
  from long C4_skip_table_written_behind_its_capacity
    [where needleLength = 256 and nd = "replicate 256 CHR ''a''" and haystackLength = 300
      and hs = "replicate 300 CHR ''a''" and malloc_ok = True]
  have c1: "searchKnuthMorrisPratt True (Some (replicate 300 CHR ''a'')) 300
      (Some (replicate 256 CHR ''a'')) 256 = Some (Inl OutOfBounds)"
    by blast
  from short C4_skip_table_written_behind_its_capacity
    [where needleLength = 4 and nd = "''aaab''" and haystackLength = 0
      and hs = "[]" and malloc_ok = True]
  have c2: "\<exists>skip0 skip. kmp_alloc True 4 = Some skip0
          \<and> length skip0 = MaxLocalMemory
          \<and> kmp_prepare ''aaab'' 4 0 (skip0[0 := Some (- 1)]) = Some (Inr skip)
          \<and> length skip = MaxLocalMemory \<and> kmp_filled skip 4"
    by blast
  from c1 c2 show ?thesis by blast
qed

text \<open>
  C7 (Bitap: restriction and delegation). \<open>MaxBitWidth\<close> is 31. For every needle longer
  than that, \<^verbatim>\<open>searchBitap\<close> returns what \<^verbatim>\<open>searchNative\<close> returns on the same arguments,
  and \<^verbatim>\<open>searchBitapString\<close> what \<^verbatim>\<open>searchSimpleString\<close> returns (the needle a string of
  length \<open>n\<close>); no error is added. For every needle of at most 31 bytes, \<^verbatim>\<open>searchBitap\<close>
  returns the first occurrence of the needle in the haystack, and \<^verbatim>\<open>NULL\<close> when there is
  none.
\<close>

theorem C7_bitap_delegates_or_finds_first_occurrence:
  "MaxBitWidth = 31
   \<and> (MaxBitWidth < needleLength \<longrightarrow>
        searchBitap haystack haystackLength needle needleLength
        = searchNative haystack haystackLength needle needleLength)
   \<and> (strlen str = Inr n \<and> MaxBitWidth < n \<longrightarrow>
        searchBitapString haystack (Some str) = searchSimpleString haystack (Some str))
   \<and> (needleLength \<le> MaxBitWidth \<and> haystackLength \<le> length hs \<and> needleLength \<le> length nd \<longrightarrow>
        searchBitap (Some hs) haystackLength (Some nd) needleLength
        = Inr (first_occurrence (take haystackLength hs) (take needleLength nd)))"
proof (intro conjI impI)
  show "MaxBitWidth = 31" by (simp add: MaxBitWidth_def)
next
  assume "MaxBitWidth < needleLength"
  then show "searchBitap haystack haystackLength needle needleLength
        = searchNative haystack haystackLength needle needleLength"
    by (rule searchBitap_delegates)
next
  assume "strlen str = Inr n \<and> MaxBitWidth < n"
  then show "searchBitapString haystack (Some str) = searchSimpleString haystack (Some str)"
    by (intro searchBitapString_delegates [of str n]) simp_all
next
  assume "needleLength \<le> MaxBitWidth \<and> haystackLength \<le> length hs \<and> needleLength \<le> length nd"
  then show "searchBitap (Some hs) haystackLength (Some nd) needleLength
        = Inr (first_occurrence (take haystackLength hs) (take needleLength nd))"
    by (intro searchBitap_first_occurrence) simp_all
qed

theorem C7_bitap_witness:
  "searchBitap (Some (replicate 40 CHR ''a'')) 40 (Some (replicate 32 CHR ''a'')) 32
     = searchNative (Some (replicate 40 CHR ''a'')) 40 (Some (replicate 32 CHR ''a'')) 32
   \<and> searchBitapString (Some (replicate 40 CHR ''a'' @ [NUL]))
        (Some (replicate 32 CHR ''a'' @ [NUL]))
     = searchSimpleString (Some (replicate 40 CHR ''a'' @ [NUL]))
        (Some (replicate 32 CHR ''a'' @ [NUL]))
   \<and> searchBitap (Some ''aaaaaaab'') 8 (Some ''aaab'') 4 = Inr (Some 4)"
proof -
  have long: "MaxBitWidth < 32" by (simp add: MaxBitWidth_def)
  have short: "4 \<le> MaxBitWidth \<and> 8 \<le> length ''aaaaaaab'' \<and> 4 \<le> length ''aaab''"
    by (simp add: MaxBitWidth_def)
  have "strlen_from (replicate 32 CHR ''a'' @ [NUL]) i = Inr 32" if "i \<le> 32" for i
    using that
  proof (induction "32 - i" arbitrary: i)
    case 0
    then have "i = 32" by simp
    then show ?case by (subst strlen_from.simps) (simp add: rd_def nth_append)
  next
    case (Suc k)
    then have "i < 32" by simp
    moreover from Suc have "strlen_from (replicate 32 CHR ''a'' @ [NUL]) (i + 1) = Inr 32"
      by simp
    ultimately show ?case
      by (subst strlen_from.simps) (simp add: rd_def nth_append NUL_def)
  qed
  then have str: "strlen (replicate 32 CHR ''a'' @ [NUL]) = Inr 32 \<and> MaxBitWidth < 32"
    using long by (simp add: strlen_def)
  have fo: "first_occurrence (take 8 ''aaaaaaab'') (take 4 ''aaab'') = Some 4"
    by (simp add: first_occurrence_def occurs_at_def upt_rec)
  have c1: "searchBitap (Some (replicate 40 CHR ''a'')) 40 (Some (replicate 32 CHR ''a'')) 32
      = searchNative (Some (replicate 40 CHR ''a'')) 40 (Some (replicate 32 CHR ''a'')) 32"
    using long C7_bitap_delegates_or_finds_first_occurrence
      [where needleLength = 32 and haystack = "Some (replicate 40 CHR ''a'')"
        and haystackLength = 40 and needle = "Some (replicate 32 CHR ''a'')"
        and str = "[]" and n = 0 and hs = "[]" and nd = "[]"]
    by blast
  have c2: "searchBitapString (Some (replicate 40 CHR ''a'' @ [NUL]))
        (Some (replicate 32 CHR ''a'' @ [NUL]))
      = searchSimpleString (Some (replicate 40 CHR ''a'' @ [NUL]))
        (Some (replicate 32 CHR ''a'' @ [NUL]))"
    using str C7_bitap_delegates_or_finds_first_occurrence
      [where needleLength = 0 and haystack = "Some (replicate 40 CHR ''a'' @ [NUL])"
        and haystackLength = 0 and needle = None
        and str = "replicate 32 CHR ''a'' @ [NUL]" and n = 32 and hs = "[]" and nd = "[]"]
    by blast
  have "searchBitap (Some ''aaaaaaab'') 8 (Some ''aaab'') 4
      = Inr (first_occurrence (take 8 ''aaaaaaab'') (take 4 ''aaab''))"
    using short C7_bitap_delegates_or_finds_first_occurrence
      [where needleLength = 4 and haystack = None and haystackLength = 8 and needle = None
        and str = "[]" and n = 0 and hs = "''aaaaaaab''" and nd = "''aaab''"]
    by blast
  then have c3: "searchBitap (Some ''aaaaaaab'') 8 (Some ''aaab'') 4 = Inr (Some 4)"
    by (simp only: fo)
  from c1 c2 c3 show ?thesis by blast
qed

text \<open>
  C8 (line-scan uniqueness). The claim is made for every needle. With the empty needle
  \<^verbatim>\<open>""\<close> every matcher returns its haystack argument, so after the first hit the cursor
  stays at the right boundary of the line: on the one-byte file \<open>a\<close> (one physical line)
  the first three rounds of the loop count three hits and write three lines, the empty
  span at the end of the file twice, and the run never ends, in either display mode.
  With a needle that starts with the newline byte the cursor stays on that newline in
  the same way; in full mode the line's left boundary then lies behind its right
  boundary and \<^verbatim>\<open>fwrite\<close> is called with a length of \<open>2 ^ 64 - 1\<close>.
\<close>

theorem C8_empty_needle_is_counted_without_end:
  "scan_rounds (Suc (Suc (Suc 0))) m UseNative ShowLines (load ''a'') 1 [NUL] 0 scan_start
     = Some (Inr (Next \<lparr>current = 1, numHits = 3,
         stdout = [Fwrite ''a'', Putchar newline, Fwrite [], Putchar newline,
                   Fwrite [], Putchar newline]\<rparr>))
   \<and> mygrep m UseBest ShowLines [NUL] ''a'' = None
   \<and> mygrep m UseBest ShowCountOnly [NUL] ''a'' = None
   \<and> mygrep m UseBest ShowLines [newline, NUL] (''a'' @ [newline] @ ''b'') = Some (Inl OutOfBounds)"
proof (intro conjI)
  show "scan_rounds (Suc (Suc (Suc 0))) m UseNative ShowLines (load ''a'') 1 [NUL] 0 scan_start
     = Some (Inr (Next \<lparr>current = 1, numHits = 3,
         stdout = [Fwrite ''a'', Putchar newline, Fwrite [], Putchar newline,
                   Fwrite [], Putchar newline]\<rparr>))"
    by (simp add: empty_needle_first_round [simplified] empty_needle_later_round [simplified])
  show "mygrep m UseBest ShowLines [NUL] ''a'' = None"
    by (rule empty_needle_mygrep_diverges)
  show "mygrep m UseBest ShowCountOnly [NUL] ''a'' = None"
    by (rule empty_needle_mygrep_diverges)
  show "mygrep m UseBest ShowLines [newline, NUL] (''a'' @ [newline] @ ''b'')
      = Some (Inl OutOfBounds)"
    by (simp add: driver_eval libc_eval native_eval)
qed

text \<open>
  The run on the file \<open>foo\<close>, newline, \<open>bar needle baz\<close>, newline, \<open>qux\<close> with the
  needle \<open>needle\<close>, for each value of the algorithm option and both display modes.
\<close>

lemma scenario_native:
  "mygrep m UseNative d (''needle'' @ [NUL])
      (''foo'' @ [newline] @ ''bar needle baz'' @ [newline] @ ''qux'')
    = Some (Inr (if d = ShowCountOnly then [Printf_d 1]
                 else [Fwrite ''bar needle baz'', Putchar newline], 0))"
  by (cases d) (simp_all add: driver_eval libc_eval native_eval)

lemma scenario_best:
  "mygrep m UseBest d (''needle'' @ [NUL])
      (''foo'' @ [newline] @ ''bar needle baz'' @ [newline] @ ''qux'')
    = Some (Inr (if d = ShowCountOnly then [Printf_d 1]
                 else [Fwrite ''bar needle baz'', Putchar newline], 0))"
  by (cases d) (simp_all add: driver_eval libc_eval native_eval)

lemma scenario_simple:
  "mygrep m UseSimple d (''needle'' @ [NUL])
      (''foo'' @ [newline] @ ''bar needle baz'' @ [newline] @ ''qux'')
    = Some (Inr (if d = ShowCountOnly then [Printf_d 1]
                 else [Fwrite ''bar needle baz'', Putchar newline], 0))"
  by (cases d) (simp_all add: driver_eval libc_eval simple_eval)

lemma scenario_kmp:
  "mygrep m UseKnuthMorrisPratt d (''needle'' @ [NUL])
      (''foo'' @ [newline] @ ''bar needle baz'' @ [newline] @ ''qux'')
    = Some (Inr (if d = ShowCountOnly then [Printf_d 1]
                 else [Fwrite ''bar needle baz'', Putchar newline], 0))"
  by (cases d) (simp_all add: driver_eval libc_eval kmp_eval)

lemma scenario_bmh:
  "mygrep m UseBoyerMooreHorspool d (''needle'' @ [NUL])
      (''foo'' @ [newline] @ ''bar needle baz'' @ [newline] @ ''qux'')
    = Some (Inr (if d = ShowCountOnly then [Printf_d 1]
                 else [Fwrite ''bar needle baz'', Putchar newline], 0))"
  by (cases d) (simp_all add: driver_eval libc_eval bmh_eval)

lemma scenario_bitap:
  "mygrep m UseBitap d (''needle'' @ [NUL])
      (''foo'' @ [newline] @ ''bar needle baz'' @ [newline] @ ''qux'')
    = Some (Inr (if d = ShowCountOnly then [Printf_d 1]
                 else [Fwrite ''bar needle baz'', Putchar newline], 0))"
  by (cases d) (simp_all add: driver_eval libc_eval bitap_eval)

lemma scenario_rabinKarp:
  "mygrep m UseRabinKarp d (''needle'' @ [NUL])
      (''foo'' @ [newline] @ ''bar needle baz'' @ [newline] @ ''qux'')
    = Some (Inr (if d = ShowCountOnly then [Printf_d 1]
                 else [Fwrite ''bar needle baz'', Putchar newline], 0))"
  by (cases d) (simp_all add: driver_eval libc_eval rabinKarp_eval)

lemma scenario_memmem:
  "mygrep m UseMemMem d (''needle'' @ [NUL])
      (''foo'' @ [newline] @ ''bar needle baz'' @ [newline] @ ''qux'')
    = Some (Inr (if d = ShowCountOnly then [Printf_d 1]
                 else [Fwrite ''bar needle baz'', Putchar newline], 0))"
  by (cases d) (simp_all add: driver_eval libc_eval)

lemma scenario_strstr:
  "mygrep m UseStrStr d (''needle'' @ [NUL])
      (''foo'' @ [newline] @ ''bar needle baz'' @ [newline] @ ''qux'')
    = Some (Inr (if d = ShowCountOnly then [Printf_d 1]
                 else [Fwrite ''bar needle baz'', Putchar newline], 0))"
  by (cases d) (simp_all add: driver_eval libc_eval)

text \<open>
  C9 (line-scan scenario). The file holds the bytes \<open>foo\<close>, newline, \<open>bar needle baz\<close>,
  newline, \<open>qux\<close>; \<^verbatim>\<open>argv[1]\<close> is the string \<open>needle\<close>. Whatever algorithm is selected,
  the run in count-only mode prints the count 1 and nothing else, the run in full mode
  writes the line \<open>bar needle baz\<close> followed by a newline and nothing else, and both exit
  with code 0.
\<close>

theorem C9_line_scan_scenario:
  "mygrep malloc_ok algorithm ShowCountOnly (''needle'' @ [NUL])
      (''foo'' @ [newline] @ ''bar needle baz'' @ [newline] @ ''qux'')
     = Some (Inr ([Printf_d 1], 0))
   \<and> mygrep malloc_ok algorithm ShowLines (''needle'' @ [NUL])
      (''foo'' @ [newline] @ ''bar needle baz'' @ [newline] @ ''qux'')
     = Some (Inr ([Fwrite ''bar needle baz'', Putchar newline], 0))"
  by (cases algorithm)
    (simp_all only: scenario_native scenario_best scenario_simple scenario_kmp scenario_bmh
      scenario_bitap scenario_rabinKarp scenario_memmem scenario_strstr, simp_all)

end
